theory Spec2Isabelle
  imports Complex_Main
begin

section \<open>Values shared by the editor and its collaborators\<close>

text \<open>
  A JSON value as JavaScript holds it after parsing.  Object members keep their insertion
  order (an association list).  Numbers are rationals: every JSON numeric literal is one;
  the rounding of IEEE doubles is outside this development.
\<close>

datatype json =
    JNull
  | JBool bool
  | JNum rat
  | JStr string
  | JArr "json list"
  | JObj "(string \<times> json) list"

text \<open>One step of an error path: a property name or an array index.\<close>

datatype token = Key string | Index nat

text \<open>A validation error \<open>{ path, property, message }\<close>.\<close>

record validation_error =
  path :: "token list"
  property :: string
  message :: string

text \<open>
  What a JavaScript \<open>throw\<close> carries.  \<open>Error m\<close> is \<open>new Error(m)\<close>; \<open>TypeError\<close> is
  the engine's failure on reading a property of \<open>null\<close> or \<open>undefined\<close>; \<open>RangeError\<close> is
  its failure when the call stack is exhausted.
\<close>

datatype error =
    Error string
  | TypeError string
  | RangeError string

text \<open>A caller-supplied validator \<open>(schema, value, path) => errors\<close>; it may throw.\<close>

type_synonym custom_validator =
  "json \<Rightarrow> json \<Rightarrow> token list \<Rightarrow> error + validation_error list"

section \<open>The editor object of \<open>src/core.js\<close>\<close>

text \<open>
  The options object after \<open>extend({}, JSONEditor.defaults.options, options)\<close>.
  \<open>startval\<close> is \<open>None\<close> when the object has no own property of that name.
\<close>

record options =
  opt_schema :: json
  opt_startval :: "json option"
  opt_show_errors :: string
  opt_custom_validators :: "custom_validator list option"
  opt_theme :: "string option"
  opt_iconlib :: "string option"
  opt_template :: "string option"

text \<open>The host DOM element, as far as the editor touches it.\<close>

record element =
  children :: "string list"
  data_theme :: "string option"

text \<open>
  The fields of a \<open>JSONEditor\<close> instance.  \<open>None\<close> is JavaScript's \<open>null\<close> or
  \<open>undefined\<close>; a flag that was never assigned (\<open>destroyed\<close>, \<open>firing_change\<close>) is
  \<open>False\<close>, as \<open>undefined\<close> is falsy.  \<open>'r\<close> is the root editor object and \<open>'vd\<close> the
  \<open>Validator\<close> object, both instances of classes defined outside \<open>core.js\<close>.
  \<open>callbacks\<close> maps an event name to the identifiers of its registered handlers.
\<close>

record ('r, 'vd) editor =
  element :: element
  options :: "options option"
  ready :: bool
  copyClipboard :: "json option"
  schema :: "json option"
  template :: "string option"
  uuid :: nat
  data :: "(nat \<times> json) list option"
  theme :: "string option"
  iconlib :: "string option"
  root_container :: "string option"
  refs :: "(string \<times> json) list"
  validator :: "'vd option"
  root' :: "'r option"
  validation_results :: "validation_error list option"
  destroyed :: bool
  callbacks :: "string \<Rightarrow> nat list"
  firing_change :: bool

text \<open>
  The collaborators \<open>core.js\<close> imports and calls: the \<open>Validator\<close> class, the schema
  loader's \<open>expandSchema\<close>, the tables of \<open>JSONEditor.defaults\<close>, and the methods of the
  root editor object.  They are parameters of every function below.  A method of the root
  editor acts on the root editor only.
\<close>

record ('r, 'vd) deps =
  Validator_new :: "('r, 'vd) editor \<Rightarrow> custom_validator list option \<Rightarrow> 'vd"
  Validator_validate :: "'vd \<Rightarrow> json \<Rightarrow> error + validation_error list"
  expandSchema :: "json \<Rightarrow> json"
  resolvers :: "(json \<Rightarrow> string option) list"
  editors :: "string \<Rightarrow> string option"
  root_new :: "string \<Rightarrow> json \<Rightarrow> string option \<Rightarrow> 'r"
  root_preBuild :: "'r \<Rightarrow> 'r"
  root_build :: "'r \<Rightarrow> 'r"
  root_postBuild :: "'r \<Rightarrow> 'r"
  root_getValue :: "'r \<Rightarrow> json"
  root_setValue :: "json \<Rightarrow> 'r \<Rightarrow> 'r"
  root_showValidationErrors :: "validation_error list \<Rightarrow> 'r \<Rightarrow> 'r"
  default_theme :: string
  themes :: "string \<Rightarrow> string option"
  theme_getContainer :: "string \<Rightarrow> string"
  default_iconlib :: string
  iconlibs :: "string \<Rightarrow> string option"

text \<open>
  A callback handed to \<open>window.requestAnimationFrame\<close>: the one of the constructor
  (lines 78-84) or the one of \<open>onChange\<close> (lines 228-243).
\<close>

datatype frame = ReadyFrame | ChangeFrame

text \<open>
  The editor together with what lies outside it: the animation frames requested and not
  yet run, and the event handlers invoked so far (event name, handler identifier).
\<close>

record ('r, 'vd) world =
  jsoneditor :: "('r, 'vd) editor"
  frames :: "frame list"
  invoked :: "(string \<times> nat) list"

subsection \<open>\<open>getValue\<close>, \<open>setValue\<close>, \<open>validate\<close>\<close>

definition getValue ::
  "('r, 'vd) deps \<Rightarrow> ('r, 'vd) editor \<Rightarrow> (error + json) \<times> ('r, 'vd) editor" where
  "getValue D e =
     (if \<not> ready e then
        (Inl (Error ''JSON Editor not ready yet.  Listen for 'ready' event before getting the value''), e)
      else case root' e of
        None \<Rightarrow> (Inl (TypeError ''root''), e)
      | Some r \<Rightarrow> (Inr (root_getValue D r), e))"

definition setValue ::
  "('r, 'vd) deps \<Rightarrow> json \<Rightarrow> ('r, 'vd) editor \<Rightarrow> (error + unit) \<times> ('r, 'vd) editor" where
  "setValue D v e =
     (if \<not> ready e then
        (Inl (Error ''JSON Editor not ready yet.  Listen for 'ready' event before setting the value''), e)
      else case root' e of
        None \<Rightarrow> (Inl (TypeError ''root''), e)
      | Some r \<Rightarrow> (Inr (), e\<lparr>root' := Some (root_setValue D v r)\<rparr>))"

text \<open>
  \<open>validate\<close> looks at \<open>arguments.length\<close>, so the model takes the argument list.  The
  result is the array returned, or \<open>None\<close> where the cached field holds \<open>null\<close>.
\<close>

definition validate ::
  "('r, 'vd) deps \<Rightarrow> json list \<Rightarrow> ('r, 'vd) editor \<Rightarrow>
     (error + validation_error list option) \<times> ('r, 'vd) editor" where
  "validate D args e =
     (if \<not> ready e then
        (Inl (Error ''JSON Editor not ready yet.  Listen for 'ready' event before validating''), e)
      else if length args = 1 then
        (case validator e of
           None \<Rightarrow> (Inl (TypeError ''validator''), e)
         | Some vd \<Rightarrow>
             (case Validator_validate D vd (hd args) of
                Inl err \<Rightarrow> (Inl err, e)
              | Inr errs \<Rightarrow> (Inr (Some errs), e)))
      else (Inr (validation_results e), e))"

subsection \<open>\<open>destroy\<close>\<close>

text \<open>
  The statements of \<open>destroy\<close> run in order; \<open>this.root.destroy()\<close> comes after the first
  two assignments and throws when \<open>root\<close> is \<open>null\<close>.  The root editor's own \<open>destroy\<close>
  acts on the root editor, which is dropped by the next statement.
\<close>

definition destroy ::
  "('r, 'vd) editor \<Rightarrow> (error + unit) \<times> ('r, 'vd) editor" where
  "destroy e =
     (if destroyed e then (Inr (), e)
      else if \<not> ready e then (Inr (), e)
      else
        let e1 = e\<lparr>schema := None, options := None\<rparr> in
        case root' e1 of
          None \<Rightarrow> (Inl (TypeError ''root''), e1)
        | Some r \<Rightarrow>
            (Inr (),
             e1\<lparr>root' := None,
                root_container := None,
                validator := None,
                validation_results := None,
                theme := None,
                iconlib := None,
                template := None,
                data := None,
                ready := False,
                element := \<lparr>children = [], data_theme = None\<rparr>,
                destroyed := True\<rparr>))"

subsection \<open>Events: \<open>trigger\<close>\<close>

text \<open>
  \<open>trigger\<close> calls the handlers of the event in registration order.  The constructor's
  and \<open>onChange\<close>'s deferred steps call it with \<open>ready\<close> and \<open>change\<close>; the registration
  methods \<open>on\<close> and \<open>off\<close> are not modelled, and \<open>callbacks\<close> stands for the handler
  arrays they have left under these two names.
\<close>


definition trigger :: "string \<Rightarrow> ('r, 'vd) world \<Rightarrow> ('r, 'vd) world" where
  "trigger event w =
     w\<lparr>invoked := invoked w @ map (\<lambda>h. (event, h)) (callbacks (jsoneditor w) event)\<rparr>"

subsection \<open>\<open>getEditorClass\<close>\<close>

text \<open>
  The \<open>each\<close> loop over \<open>JSONEditor.defaults.resolvers\<close>: the first resolver whose answer
  is truthy and names a registered editor class ends the loop (\<open>return false\<close>).
\<close>

fun find_classname ::
  "(json \<Rightarrow> string option) list \<Rightarrow> (string \<Rightarrow> string option) \<Rightarrow> json \<Rightarrow> string option" where
  "find_classname [] eds s = None"
| "find_classname (resolver # rest) eds s =
     (case resolver s of
        None \<Rightarrow> find_classname rest eds s
      | Some tmp \<Rightarrow>
          (if tmp \<noteq> [] \<and> eds tmp \<noteq> None then Some tmp else find_classname rest eds s))"

text \<open>The thrown message ends with \<open>JSON.stringify(schema)\<close>, left out here.\<close>

definition getEditorClass :: "('r, 'vd) deps \<Rightarrow> json \<Rightarrow> error + string" where
  "getEditorClass D s =
     (case find_classname (resolvers D) (editors D) (expandSchema D s) of
        None \<Rightarrow> Inl (Error ''Unknown editor for schema '')
      | Some classname \<Rightarrow>
          (case editors D classname of
             None \<Rightarrow> Inl (Error (''Unknown editor '' @ classname))
           | Some cls \<Rightarrow> Inr cls))"

subsection \<open>The constructor and the callback it hands to \<open>loader.load\<close>\<close>

text \<open>
  The constructor up to the call of \<open>loader.load\<close>.  Its first argument is \<open>None\<close> when
  the value passed is not an \<open>Element\<close>.  The style rules it adds go to the document's
  style sheet, not to the editor, and are left out; \<open>refs\<close> is the loader's reference
  table, which the editor shares.
\<close>

definition truthy :: "string option \<Rightarrow> bool" where
  "truthy s = (case s of None \<Rightarrow> False | Some x \<Rightarrow> x \<noteq> [])"

definition constructor ::
  "('r, 'vd) deps \<Rightarrow> element option \<Rightarrow> options \<Rightarrow> (string \<times> json) list \<Rightarrow>
     error + ('r, 'vd) editor" where
  "constructor D el opts loader_refs =
     (case el of
        None \<Rightarrow> Inl (Error ''element should be an instance of Element'')
      | Some elem \<Rightarrow>
          let themeName = (if truthy (opt_theme opts) then the (opt_theme opts) else default_theme D) in
          (case themes D themeName of
             None \<Rightarrow> Inl (Error (''Unknown theme '' @ themeName))
           | Some themeClass \<Rightarrow>
               let iconName = (if truthy (opt_iconlib opts) then the (opt_iconlib opts)
                               else default_iconlib D);
                   container = theme_getContainer D themeClass
               in Inr \<lparr>element = elem\<lparr>data_theme := Some themeName,
                                       children := children elem @ [container]\<rparr>,
                       options = Some opts,
                       ready = False,
                       copyClipboard = None,
                       schema = Some (opt_schema opts),
                       template = opt_template opts,
                       uuid = 0,
                       data = Some [],
                       theme = Some themeClass,
                       iconlib = iconlibs D iconName,
                       root_container = Some container,
                       refs = loader_refs,
                       validator = None,
                       root' = None,
                       validation_results = None,
                       destroyed = False,
                       callbacks = (\<lambda>_. []),
                       firing_change = False\<rparr>))"

text \<open>
  The arrow function of lines 52-85, called by the loader with the resolved schema.  A
  throw leaves the assignments made before it in place.
\<close>

definition load_callback ::
  "('r, 'vd) deps \<Rightarrow> json \<Rightarrow> ('r, 'vd) world \<Rightarrow> (error + unit) \<times> ('r, 'vd) world" where
  "load_callback D s w =
     (let e = jsoneditor w in
      case options e of
        None \<Rightarrow> (Inl (TypeError ''options''), w)
      | Some opts \<Rightarrow>
          let vd = Validator_new D e (opt_custom_validators opts);
              e1 = e\<lparr>validator := Some vd\<rparr>
          in
          (case getEditorClass D s of
             Inl err \<Rightarrow> (Inl err, w\<lparr>jsoneditor := e1\<rparr>)
           | Inr editorClass \<Rightarrow>
               let r0 = root_new D editorClass s (root_container e1);
                   r1 = root_postBuild D (root_build D (root_preBuild D r0));
                   r2 = (case opt_startval opts of None \<Rightarrow> r1 | Some sv \<Rightarrow> root_setValue D sv r1)
               in
               (case Validator_validate D vd (root_getValue D r2) of
                  Inl err \<Rightarrow> (Inl err, w\<lparr>jsoneditor := e1\<lparr>root' := Some r2\<rparr>\<rparr>)
                | Inr errs \<Rightarrow>
                    (Inr (),
                     w\<lparr>jsoneditor :=
                          e1\<lparr>root' := Some (root_showValidationErrors D errs r2),
                             validation_results := Some errs,
                             ready := True\<rparr>,
                       frames := frames w @ [ReadyFrame]\<rparr>))))"

subsection \<open>The deferred steps\<close>

text \<open>
  \<open>this.validator.validate(this.root.getValue())\<close>, the validation pass of the three
  internal callers.
\<close>

definition validate_root ::
  "('r, 'vd) deps \<Rightarrow> ('r, 'vd) editor \<Rightarrow> error + validation_error list" where
  "validate_root D e =
     (case validator e of
        None \<Rightarrow> Inl (TypeError ''validator'')
      | Some vd \<Rightarrow>
          (case root' e of
             None \<Rightarrow> Inl (TypeError ''root'')
           | Some r \<Rightarrow> Validator_validate D vd (root_getValue D r)))"

text \<open>The animation-frame callback of the constructor (lines 78-84).\<close>

definition ready_frame ::
  "('r, 'vd) deps \<Rightarrow> ('r, 'vd) world \<Rightarrow> (error + unit) \<times> ('r, 'vd) world" where
  "ready_frame D w =
     (let e = jsoneditor w in
      if \<not> ready e then (Inr (), w)
      else case validate_root D e of
        Inl err \<Rightarrow> (Inl err, w)
      | Inr errs \<Rightarrow>
          let e1 = e\<lparr>validation_results := Some errs,
                     root' := map_option (root_showValidationErrors D errs) (root' e)\<rparr>
          in (Inr (), trigger ''change'' (trigger ''ready'' (w\<lparr>jsoneditor := e1\<rparr>))))"

text \<open>The animation-frame callback of \<open>onChange\<close> (lines 228-243).\<close>

definition change_frame ::
  "('r, 'vd) deps \<Rightarrow> ('r, 'vd) world \<Rightarrow> (error + unit) \<times> ('r, 'vd) world" where
  "change_frame D w =
     (let e0 = (jsoneditor w)\<lparr>firing_change := False\<rparr>;
          w0 = w\<lparr>jsoneditor := e0\<rparr>
      in
      if \<not> ready e0 then (Inr (), w0)
      else case validate_root D e0 of
        Inl err \<Rightarrow> (Inl err, w0)
      | Inr errs \<Rightarrow>
          let e1 = e0\<lparr>validation_results := Some errs\<rparr> in
          (case options e1 of
             None \<Rightarrow> (Inl (TypeError ''options''), w0\<lparr>jsoneditor := e1\<rparr>)
           | Some opts \<Rightarrow>
               let shown = (if opt_show_errors opts \<noteq> ''never'' then errs else []);
                   e2 = e1\<lparr>root' := map_option (root_showValidationErrors D shown) (root' e1)\<rparr>
               in (Inr (), trigger ''change'' (w0\<lparr>jsoneditor := e2\<rparr>))))"

definition onChange :: "('r, 'vd) world \<Rightarrow> ('r, 'vd) world" where
  "onChange w =
     (let e = jsoneditor w in
      if \<not> ready e then w
      else if firing_change e then w
      else w\<lparr>jsoneditor := e\<lparr>firing_change := True\<rparr>, frames := frames w @ [ChangeFrame]\<rparr>)"

text \<open>The browser runs the oldest requested animation frame.\<close>

definition run_frame ::
  "('r, 'vd) deps \<Rightarrow> ('r, 'vd) world \<Rightarrow> (error + unit) \<times> ('r, 'vd) world" where
  "run_frame D w =
     (case frames w of
        [] \<Rightarrow> (Inr (), w)
      | ReadyFrame # rest \<Rightarrow> ready_frame D (w\<lparr>frames := rest\<rparr>)
      | ChangeFrame # rest \<Rightarrow> change_frame D (w\<lparr>frames := rest\<rparr>))"

text \<open>\<open>destroy\<close> called by the page while frames may be pending.\<close>

definition destroy_world :: "('r, 'vd) world \<Rightarrow> (error + unit) \<times> ('r, 'vd) world" where
  "destroy_world w = (case destroy (jsoneditor w) of (res, e) \<Rightarrow> (res, w\<lparr>jsoneditor := e\<rparr>))"

section \<open>The validation engine\<close>

text \<open>
  Modelled from the spec: the \<open>Validator\<close> of \<open>validator.js\<close>, which \<open>src/core.js\<close> imports
  and which is not among the sources.  Every definition of this section follows the
  specification (section 4.2, steps 1 to 9).  A schema node is the JSON value of the
  schema document; a keyword is a member of that object, and a node that is not an object
  carries no keyword.
\<close>

subsection \<open>Reading schema nodes\<close>










subsection \<open>Results of a validation run\<close>

text \<open>
  A run returns its value, or throws, or is cut off because the recursion went deeper
  than the depth it was given.
\<close>

datatype 'a outcome = Done 'a | Threw error | Unfinished



definition verr :: "token list \<Rightarrow> string \<Rightarrow> string \<Rightarrow> validation_error" where
  "verr p k m = \<lparr>path = p, property = k, message = m\<rparr>"

text \<open>
  The validator object: the resolved schema graph (root node and reference table), the
  custom validators fixed at construction, and the two recognisers the string keywords
  need from the host: the regular-expression test and the table of known formats.
\<close>

record validator =
  v_schema :: json
  v_refs :: "(string \<times> json) list"
  v_custom :: "custom_validator list"
  v_regex :: "string \<Rightarrow> string \<Rightarrow> bool"
  v_formats :: "string \<Rightarrow> (string \<Rightarrow> bool) option"


subsection \<open>Steps 1 to 4: checks on the value itself\<close>







subsection \<open>Step 5: arrays\<close>




subsection \<open>Step 6: objects\<close>







subsection \<open>Step 7: combinators\<close>




definition passing :: "validation_error list list \<Rightarrow> nat" where
  "passing ess = length (filter (\<lambda>es. es = []) ess)"





subsection \<open>Steps 8 and 9: lazy back-references and custom validators\<close>




subsection \<open>The traversal\<close>







section \<open>The schema loader\<close>

text \<open>
  Modelled from the spec: the \<open>SchemaLoader\<close> of \<open>schemaloader.js\<close>, which \<open>src/core.js\<close>
  imports and which is not among the sources.  Every definition of this section follows
  the specification (sections 4.1 and 5): a single thread of control that traverses
  documents, keeps the reference table, issues fetches through the injected capability
  and processes their completions one at a time.
\<close>

subsection \<open>JSON pointers\<close>

fun split_on :: "char \<Rightarrow> string \<Rightarrow> string list" where
  "split_on c [] = [[]]"
| "split_on c (x # xs) =
     (if x = c then [] # split_on c xs
      else (case split_on c xs of [] \<Rightarrow> [[x]] | w # ws \<Rightarrow> (x # w) # ws))"

definition digit_of :: "char \<Rightarrow> nat option" where
  "digit_of c =
     (let n = (of_char c :: nat) in if 48 \<le> n \<and> n \<le> 57 then Some (n - 48) else None)"

fun index_of :: "nat \<Rightarrow> string \<Rightarrow> nat option" where
  "index_of acc [] = Some acc"
| "index_of acc (c # cs) = (case digit_of c of None \<Rightarrow> None | Some d \<Rightarrow> index_of (10 * acc + d) cs)"

fun descend :: "json \<Rightarrow> string list \<Rightarrow> json option" where
  "descend d [] = Some d"
| "descend (JObj ms) (t # ts) = (case map_of ms t of None \<Rightarrow> None | Some x \<Rightarrow> descend x ts)"
| "descend (JArr xs) (t # ts) =
     (if t = [] then None
      else case index_of 0 t of
             None \<Rightarrow> None
           | Some i \<Rightarrow> if i < length xs then descend (xs ! i) ts else None)"
| "descend _ (t # ts) = None"

text \<open>
  The in-memory lookup of a fragment in a loaded document: the empty pointer is the
  document, \<open>/a/b\<close> is member \<open>b\<close> of member \<open>a\<close>.
\<close>

definition json_pointer :: "json \<Rightarrow> string \<Rightarrow> json option" where
  "json_pointer d ptr =
     (case ptr of
        [] \<Rightarrow> Some d
      | c # rest \<Rightarrow> if c = CHR ''/'' then descend d (split_on CHR ''/'' rest) else None)"

subsection \<open>References of a document\<close>

text \<open>The \<open>$ref\<close> strings of a schema tree, in depth-first order.\<close>

fun refs_in :: "json \<Rightarrow> string list" where
  "refs_in (JObj ms) =
     (case map_of ms ''$ref'' of Some (JStr r) \<Rightarrow> [r] | _ \<Rightarrow> []) @
     concat (map (\<lambda>(k, x). refs_in x) ms)"
| "refs_in (JArr xs) = concat (map refs_in xs)"
| "refs_in _ = []"

subsection \<open>The state of one \<open>load\<close> call\<close>

text \<open>
  An entry of the reference table: a document that has arrived, or the placeholder of a
  fetch in progress with the pointers its subscribers wait for.
\<close>

datatype entry = Pending "string list" | Resolved json

datatype load_status = Loading | Finished | Failed

text \<open>What the fetch capability delivers for a URI.\<close>

datatype response = Fetched json | FetchError string | Malformed

text \<open>
  \<open>l_fetched\<close> lists the URIs the fetch capability was invoked with, \<open>l_resolved\<close> the
  arguments \<open>onResolved\<close> was called with, and \<open>l_errors\<close> the resolution errors reported,
  each in order.
\<close>

record loader =
  l_root :: json
  l_table :: "(string \<times> entry) list"
  l_fetched :: "string list"
  l_status :: load_status
  l_resolved :: "json list"
  l_errors :: "string list"

text \<open>
  The resolution of a reference against the base URI of the document it stands in (RFC
  3986) is the host's: it gives the canonical document URI and the pointer within it.
\<close>

type_synonym resolver = "string \<Rightarrow> string \<Rightarrow> string \<times> string"

definition set_entry :: "string \<Rightarrow> entry \<Rightarrow> (string \<times> entry) list \<Rightarrow> (string \<times> entry) list" where
  "set_entry u e T = map (\<lambda>(k, x). if k = u then (k, e) else (k, x)) T"

definition is_pending :: "entry \<Rightarrow> bool" where
  "is_pending e = (case e of Pending _ \<Rightarrow> True | Resolved _ \<Rightarrow> False)"

definition pending :: "loader \<Rightarrow> string list" where
  "pending st = map fst (filter (\<lambda>(u, e). is_pending e) (l_table st))"

text \<open>A resolution error: reported, and fatal to the load call.\<close>

definition fail :: "string \<Rightarrow> loader \<Rightarrow> loader" where
  "fail msg st = st\<lparr>l_status := Failed, l_errors := l_errors st @ [msg]\<rparr>"

subsection \<open>Traversal\<close>

text \<open>
  Modelled from the spec: the step of the resolution algorithm at a \<open>$ref\<close>.  One
  reference \<open>r\<close> met in the document loaded from \<open>base\<close>.  A target document that is
  in the table is reused: looked up at once when it has arrived, subscribed to when its
  fetch is in progress.  Only a document the table lacks is fetched.
\<close>

definition visit :: "resolver \<Rightarrow> string \<Rightarrow> loader \<Rightarrow> string \<Rightarrow> loader" where
  "visit resolve base st r =
     (if l_status st \<noteq> Loading then st
      else case resolve base r of
        (doc, ptr) \<Rightarrow>
          (case map_of (l_table st) doc of
             Some (Resolved d) \<Rightarrow>
               (case json_pointer d ptr of
                  None \<Rightarrow> fail (''Dangling reference '' @ r) st
                | Some target \<Rightarrow> st)
           | Some (Pending subs) \<Rightarrow>
               st\<lparr>l_table := set_entry doc (Pending (subs @ [ptr])) (l_table st)\<rparr>
           | None \<Rightarrow>
               st\<lparr>l_table := l_table st @ [(doc, Pending [ptr])],
                  l_fetched := l_fetched st @ [doc]\<rparr>))"

definition traverse :: "resolver \<Rightarrow> string \<Rightarrow> json \<Rightarrow> loader \<Rightarrow> loader" where
  "traverse resolve base d st = fold (\<lambda>r s. visit resolve base s r) (refs_in d) st"

text \<open>\<open>onResolved\<close> fires when the load is still running and no fetch is outstanding.\<close>

definition settle :: "loader \<Rightarrow> loader" where
  "settle st =
     (if l_status st = Loading \<and> pending st = []
      then st\<lparr>l_status := Finished, l_resolved := l_resolved st @ [l_root st]\<rparr>
      else st)"

text \<open>
  Modelled from the spec: \<open>load(rootSchema, onResolved, baseURI, currentDocumentURI)\<close> of
  \<open>SchemaLoader\<close>.  The root document is
  entered in the table under its base URI before it is traversed.  A root given as a
  string names an external document: it is the reference to that document.
\<close>

definition root_node :: "json \<Rightarrow> json" where
  "root_node s = (case s of JStr u \<Rightarrow> JObj [(''$ref'', JStr u)] | _ \<Rightarrow> s)"

definition load :: "resolver \<Rightarrow> json \<Rightarrow> string \<Rightarrow> loader" where
  "load resolve rootSchema base =
     settle (traverse resolve base (root_node rootSchema)
       \<lparr>l_root = root_node rootSchema,
        l_table = [(base, Resolved (root_node rootSchema))],
        l_fetched = [],
        l_status = Loading,
        l_resolved = [],
        l_errors = []\<rparr>)"

text \<open>A pointer a subscriber of the document \<open>d\<close> waited for, checked when \<open>d\<close> arrives.\<close>

definition resume_one :: "string \<Rightarrow> json \<Rightarrow> loader \<Rightarrow> string \<Rightarrow> loader" where
  "resume_one uri d st ptr =
     (if l_status st \<noteq> Loading then st
      else case json_pointer d ptr of
             None \<Rightarrow> fail (''Dangling reference '' @ uri @ ''#'' @ ptr) st
           | Some target \<Rightarrow> st)"

definition resume :: "string \<Rightarrow> json \<Rightarrow> string list \<Rightarrow> loader \<Rightarrow> loader" where
  "resume uri d subs st = fold (\<lambda>ptr s. resume_one uri d s ptr) subs st"

text \<open>
  The completion of the fetch of \<open>uri\<close>.  After the load has finished or failed, and for
  a URI that is not awaited, the completion is discarded.
\<close>

definition complete :: "resolver \<Rightarrow> string \<Rightarrow> response \<Rightarrow> loader \<Rightarrow> loader" where
  "complete resolve uri resp st =
     (if l_status st \<noteq> Loading then st
      else case map_of (l_table st) uri of
        Some (Pending subs) \<Rightarrow>
          (case resp of
             Fetched d \<Rightarrow>
               settle (traverse resolve uri d
                 (resume uri d subs (st\<lparr>l_table := set_entry uri (Resolved d) (l_table st)\<rparr>)))
           | FetchError msg \<Rightarrow> fail (''Failed to fetch '' @ uri @ '': '' @ msg) st
           | Malformed \<Rightarrow> fail (''Not valid JSON: '' @ uri) st)
      | _ \<Rightarrow> st)"

text \<open>Completions processed one after the other, in the order they arrive.\<close>

definition deliver :: "resolver \<Rightarrow> (string \<times> response) list \<Rightarrow> loader \<Rightarrow> loader" where
  "deliver resolve evs st = fold (\<lambda>(uri, resp) s. complete resolve uri resp s) evs st"


section \<open>Notions used to state the properties\<close>

subsection \<open>Moving a result to another path\<close>

definition shift :: "token list \<Rightarrow> validation_error \<Rightarrow> validation_error" where
  "shift q e = e\<lparr>path := q @ path e\<rparr>"




subsection \<open>Well-formed resolved schema graphs\<close>











text \<open>The exception \<open>e\<close> is one that some custom validator of \<open>V\<close> throws on some input.\<close>

definition custom_throws :: "validator \<Rightarrow> error \<Rightarrow> bool" where
  "custom_throws V e = (\<exists>cv \<in> set (v_custom V). \<exists>s v p. cv s v p = Inl e)"

text \<open>A run is settled when it returned errors, or ended in a custom validator's exception.\<close>

definition settled :: "validator \<Rightarrow> validation_error list outcome \<Rightarrow> bool" where
  "settled V r = (case r of Done es \<Rightarrow> True | Threw e \<Rightarrow> custom_throws V e | Unfinished \<Rightarrow> False)"


subsection \<open>Comparing runs of different depth\<close>

text \<open>\<open>no_less r r'\<close>: the run \<open>r'\<close> ended as \<open>r\<close> did, unless \<open>r\<close> was cut off.\<close>

definition no_less :: "'a outcome \<Rightarrow> 'a outcome \<Rightarrow> bool" where
  "no_less r r' = (r = Unfinished \<or> r' = r)"

subsection \<open>Invariants of the loader\<close>

text \<open>
  The bookkeeping is sound: no key occurs twice in the table, no URI was fetched twice,
  every fetched URI has an entry, and every placeholder belongs to a fetch that was
  issued.
\<close>

definition sound :: "loader \<Rightarrow> bool" where
  "sound st =
     (distinct (map fst (l_table st)) \<and> distinct (l_fetched st) \<and>
      set (l_fetched st) \<subseteq> fst ` set (l_table st) \<and>
      set (pending st) \<subseteq> set (l_fetched st))"

text \<open>
  \<open>onResolved\<close> has been called once with the root when the load has finished, and not
  at all otherwise; a failed load has reported an error.
\<close>

definition accounted :: "loader \<Rightarrow> bool" where
  "accounted st =
     (case l_status st of
        Loading \<Rightarrow> l_resolved st = []
      | Failed \<Rightarrow> l_resolved st = [] \<and> l_errors st \<noteq> []
      | Finished \<Rightarrow> l_resolved st = [l_root st] \<and> pending st = [])"

text \<open>
  The reference \<open>r\<close> of the document at \<open>base\<close> is taken care of in the table \<open>T\<close>: its
  target document has arrived and has the pointer, or is awaited with the pointer among
  those to check.
\<close>

definition ok_ref :: "resolver \<Rightarrow> (string \<times> entry) list \<Rightarrow> string \<Rightarrow> string \<Rightarrow> bool" where
  "ok_ref resolve T base r =
     (case resolve base r of
        (doc, ptr) \<Rightarrow>
          (case map_of T doc of
             Some (Resolved d) \<Rightarrow> json_pointer d ptr \<noteq> None
           | Some (Pending subs) \<Rightarrow> ptr \<in> set subs
           | None \<Rightarrow> False))"

text \<open>Every reference of every arrived document, those at the URIs \<open>X\<close> apart, is taken care of.\<close>

definition covered :: "resolver \<Rightarrow> (string \<times> entry) list \<Rightarrow> string set \<Rightarrow> bool" where
  "covered resolve T X =
     (\<forall>b d r. (b, Resolved d) \<in> set T \<and> b \<notin> X \<and> r \<in> set (refs_in d) \<longrightarrow> ok_ref resolve T b r)"

text \<open>
  Every reference reachable from the root is resolved: every document in the table has
  arrived, and each of its references points into a document of the table, at a pointer
  that document has.
\<close>

definition all_resolved :: "resolver \<Rightarrow> loader \<Rightarrow> bool" where
  "all_resolved resolve st =
     (pending st = [] \<and>
      (\<forall>b d r. (b, Resolved d) \<in> set (l_table st) \<and> r \<in> set (refs_in d) \<longrightarrow>
         (\<exists>d'. map_of (l_table st) (fst (resolve b r)) = Some (Resolved d') \<and>
               json_pointer d' (snd (resolve b r)) \<noteq> None)))"

text \<open>
  What holds of the loader whenever it is idle, between the completions it processes:
  the bookkeeping is sound and accounted for, a load still running waits for some fetch,
  and unless the load has failed every reference met so far is taken care of.
\<close>

definition steady :: "resolver \<Rightarrow> loader \<Rightarrow> bool" where
  "steady resolve st =
     (sound st \<and> accounted st \<and>
      (l_status st = Loading \<longrightarrow> pending st \<noteq> []) \<and>
      (l_status st \<noteq> Failed \<longrightarrow> covered resolve (l_table st) {}))"

text \<open>
  The table holds the root document and the fetched documents, and the root document's
  own URI was never fetched.
\<close>

definition rooted :: "string \<Rightarrow> loader \<Rightarrow> bool" where
  "rooted base st =
     (fst ` set (l_table st) = insert base (set (l_fetched st)) \<and> base \<notin> set (l_fetched st))"


section \<open>A concrete editor\<close>

text \<open>
  Collaborators, options and editor states on which the properties below are exercised:
  a root editor that holds its value, and a validator that rejects \<open>null\<close>.
\<close>

definition example_deps :: "(json, unit) deps" where
  "example_deps =
     \<lparr>Validator_new = (\<lambda>e cvs. ()),
      Validator_validate =
        (\<lambda>vd v. if v = JNull
                 then Inr [\<lparr>path = [], property = ''type'', message = ''Value must be of type object''\<rparr>]
                 else Inr []),
      expandSchema = (\<lambda>s. s),
      resolvers = [\<lambda>s. Some ''object''],
      editors = (\<lambda>n. if n = ''object'' then Some ''ObjectEditor'' else None),
      root_new = (\<lambda>cls s container. JObj []),
      root_preBuild = (\<lambda>r. r),
      root_build = (\<lambda>r. r),
      root_postBuild = (\<lambda>r. r),
      root_getValue = (\<lambda>r. r),
      root_setValue = (\<lambda>v r. v),
      root_showValidationErrors = (\<lambda>errs r. r),
      default_theme = ''html'',
      themes = (\<lambda>n. if n = ''html'' then Some ''htmlTheme'' else None),
      theme_getContainer = (\<lambda>t. ''div''),
      default_iconlib = [],
      iconlibs = (\<lambda>n. None)\<rparr>"

definition example_options :: options where
  "example_options =
     \<lparr>opt_schema = JObj [(''type'', JStr ''object'')],
      opt_startval = None,
      opt_show_errors = ''interaction'',
      opt_custom_validators = None,
      opt_theme = None,
      opt_iconlib = None,
      opt_template = None\<rparr>"

definition example_editor :: "(json, unit) editor" where
  "example_editor =
     \<lparr>element = \<lparr>children = [''div''], data_theme = Some ''html''\<rparr>,
      options = Some example_options,
      ready = False,
      copyClipboard = None,
      schema = Some (JObj [(''type'', JStr ''object'')]),
      template = None,
      uuid = 0,
      data = Some [],
      theme = Some ''htmlTheme'',
      iconlib = None,
      root_container = Some ''div'',
      refs = [],
      validator = None,
      root' = None,
      validation_results = None,
      destroyed = False,
      callbacks = (\<lambda>_. []),
      firing_change = False\<rparr>"

definition example_world :: "(json, unit) world" where
  "example_world = \<lparr>jsoneditor = example_editor, frames = [], invoked = []\<rparr>"

definition example_ready_world :: "(json, unit) world" where
  "example_ready_world =
     \<lparr>jsoneditor = example_editor\<lparr>validator := Some (), root' := Some (JObj []),
                                     validation_results := Some [], ready := True\<rparr>,
      frames = [ReadyFrame], invoked = []\<rparr>"

section \<open>Concrete schema graphs\<close>

text \<open>A validator with no reference table and no custom validator.\<close>

definition plain_validator :: "json \<Rightarrow> validator" where
  "plain_validator s =
     \<lparr>v_schema = s, v_refs = [], v_custom = [],
      v_regex = (\<lambda>pat str. True), v_formats = (\<lambda>name. None)\<rparr>"

text \<open>\<open>{type:"object", properties:{a:{type:"object", properties:{b:{type:"number"}}}}}\<close>\<close>

definition nested_schema :: json where
  "nested_schema =
     JObj [(''type'', JStr ''object''),
           (''properties'',
            JObj [(''a'', JObj [(''type'', JStr ''object''),
                                (''properties'', JObj [(''b'', JObj [(''type'', JStr ''number'')])])])])]"




text \<open>A custom validator that rejects \<open>null\<close> wherever it occurs.\<close>

definition no_null :: custom_validator where
  "no_null s v p = Inr (if v = JNull then [verr p ''custom'' ''null is not allowed''] else [])"

definition nested_validator :: validator where
  "nested_validator = (plain_validator nested_schema)\<lparr>v_custom := [no_null]\<rparr>"















section \<open>Concrete documents\<close>

text \<open>
  A resolver for the examples: a reference that starts with \<open>#\<close> points into the
  document it stands in; any other names a document up to its \<open>#\<close>.
\<close>

definition example_resolve :: resolver where
  "example_resolve base r =
     (case split_on CHR ''#'' r of
        [doc] \<Rightarrow> (doc, [])
      | doc # ptr # rest \<Rightarrow> (if doc = [] then base else doc, ptr)
      | [] \<Rightarrow> (base, []))"

text \<open>\<open>{$ref:"#/definitions/missing"}\<close>\<close>

definition dangling_schema :: json where
  "dangling_schema = JObj [(''$ref'', JStr ''#/definitions/missing'')]"

text \<open>A root that refers to the same external document from three places.\<close>

definition shared_schema :: json where
  "shared_schema =
     JObj [(''properties'',
            JObj [(''a'', JObj [(''$ref'', JStr ''http://x/defs.json#/defs/name'')]),
                  (''b'', JObj [(''$ref'', JStr ''http://x/defs.json#/defs/name'')]),
                  (''c'', JObj [(''$ref'', JStr ''http://x/defs.json#/defs/age'')])])]"

definition defs_document :: json where
  "defs_document =
     JObj [(''defs'', JObj [(''name'', JObj [(''type'', JStr ''string'')]),
                           (''age'', JObj [(''type'', JStr ''number'')])])]"

text \<open>
  The load of \<open>shared_schema\<close> from \<open>http://x/root.json\<close> as it starts: the root document is
  in the table and no reference has been met.
\<close>

definition started :: loader where
  "started =
     \<lparr>l_root = shared_schema,
      l_table = [(''http://x/root.json'', Resolved shared_schema)],
      l_fetched = [],
      l_status = Loading,
      l_resolved = [],
      l_errors = []\<rparr>"

section \<open>Properties of the editor object\<close>

subsection \<open>The concrete editor is what the code builds\<close>

lemma constructor_example:
  "constructor example_deps (Some \<lparr>children = [], data_theme = None\<rparr>) example_options []
     = Inr example_editor"
  by (simp add: constructor_def example_deps_def example_options_def example_editor_def truthy_def Let_def)

lemma load_callback_example:
  "load_callback example_deps (JObj [(''type'', JStr ''object'')]) example_world
     = (Inr (), example_ready_world)"
  by (simp add: load_callback_def example_world_def example_ready_world_def example_editor_def
      example_deps_def example_options_def getEditorClass_def)

subsection \<open>Calls on an editor that is not ready\<close>

text \<open>
  Claim C9.  While \<open>ready\<close> is false, each of \<open>getValue\<close>, \<open>setValue\<close> and \<open>validate\<close>
  (with any arguments) throws an \<open>Error\<close>, and the editor is left as it was.
\<close>

theorem not_ready_throws:
  assumes "\<not> ready e"
  shows "(\<exists>m. getValue D e = (Inl (Error m), e)) \<and>
         (\<exists>m. setValue D v e = (Inl (Error m), e)) \<and>
         (\<exists>m. validate D args e = (Inl (Error m), e))"
  using assms by (simp add: getValue_def setValue_def validate_def)

theorem not_ready_throws_witness:
  "\<not> ready example_editor \<and>
   (\<exists>m. getValue example_deps example_editor = (Inl (Error m), example_editor)) \<and>
   (\<exists>m. setValue example_deps (JNum 1) example_editor = (Inl (Error m), example_editor)) \<and>
   (\<exists>m. validate example_deps [JNum 1] example_editor = (Inl (Error m), example_editor))"
proof -
  have nr: "\<not> ready example_editor" by (simp add: example_editor_def)
  from not_ready_throws [OF nr, of example_deps "JNum 1" "[JNum 1]"] nr show ?thesis by simp
qed

subsection \<open>\<open>destroy\<close>\<close>

lemma destroy_noop: "destroyed e \<or> \<not> ready e \<Longrightarrow> destroy e = (Inr (), e)"
  by (auto simp: destroy_def)

lemma destroy_state_idem: "snd (destroy (snd (destroy e))) = snd (destroy e)"
  by (simp add: destroy_def Let_def split: option.splits)

lemma destroy_clears:
  assumes "\<not> destroyed e" "ready e" "root' e \<noteq> None"
  shows "fst (destroy e) = Inr ()"
    and "\<not> ready (snd (destroy e))" and "destroyed (snd (destroy e))"
    and "schema (snd (destroy e)) = None" and "options (snd (destroy e)) = None"
    and "root' (snd (destroy e)) = None" and "root_container (snd (destroy e)) = None"
    and "validator (snd (destroy e)) = None" and "validation_results (snd (destroy e)) = None"
    and "theme (snd (destroy e)) = None" and "iconlib (snd (destroy e)) = None"
    and "template (snd (destroy e)) = None" and "data (snd (destroy e)) = None"
    and "element (snd (destroy e)) = \<lparr>children = [], data_theme = None\<rparr>"
  using assms by (auto simp: destroy_def Let_def split: option.splits)

text \<open>
  Claim C10.  \<open>destroy\<close> on an editor that is already destroyed, or that is not ready,
  returns without changing anything.  On a ready editor that is not destroyed it returns
  normally, leaves \<open>ready\<close> false and \<open>destroyed\<close> true and clears the schema, options,
  root, container, validator, cached results, theme, icon library, template and data
  fields and the host element; a second \<open>destroy\<close> then changes nothing.  In every case
  the state after two calls is the state after one.
\<close>

theorem destroy_gated_idempotent:
  "(destroyed e \<or> \<not> ready e \<longrightarrow> destroy e = (Inr (), e)) \<and>
   (\<not> destroyed e \<and> ready e \<and> root' e \<noteq> None \<longrightarrow>
      fst (destroy e) = Inr () \<and>
      \<not> ready (snd (destroy e)) \<and> destroyed (snd (destroy e)) \<and>
      schema (snd (destroy e)) = None \<and> options (snd (destroy e)) = None \<and>
      root' (snd (destroy e)) = None \<and> root_container (snd (destroy e)) = None \<and>
      validator (snd (destroy e)) = None \<and> validation_results (snd (destroy e)) = None \<and>
      theme (snd (destroy e)) = None \<and> iconlib (snd (destroy e)) = None \<and>
      template (snd (destroy e)) = None \<and> data (snd (destroy e)) = None \<and>
      element (snd (destroy e)) = \<lparr>children = [], data_theme = None\<rparr> \<and>
      destroy (snd (destroy e)) = (Inr (), snd (destroy e))) \<and>
   snd (destroy (snd (destroy e))) = snd (destroy e)"
proof (intro conjI impI)
  assume "destroyed e \<or> \<not> ready e"
  then show "destroy e = (Inr (), e)" by (rule destroy_noop)
next
  show "snd (destroy (snd (destroy e))) = snd (destroy e)" by (rule destroy_state_idem)
next
  assume a: "\<not> destroyed e \<and> ready e \<and> root' e \<noteq> None"
  then have "destroyed (snd (destroy e))" by (simp add: destroy_clears)
  then show "destroy (snd (destroy e)) = (Inr (), snd (destroy e))" by (simp add: destroy_noop)
qed (simp_all add: destroy_clears)

theorem destroy_gated_idempotent_witness:
  "destroy example_editor = (Inr (), example_editor) \<and>
   (let e = jsoneditor example_ready_world in
      \<not> destroyed e \<and> ready e \<and> root' e \<noteq> None \<and>
      fst (destroy e) = Inr () \<and> destroyed (snd (destroy e)) \<and> \<not> ready (snd (destroy e)) \<and>
      root' (snd (destroy e)) = None \<and>
      destroy (snd (destroy e)) = (Inr (), snd (destroy e)))"
proof -
  have a: "destroyed example_editor \<or> \<not> ready example_editor"
    by (simp add: example_editor_def)
  have b: "\<not> destroyed (jsoneditor example_ready_world) \<and> ready (jsoneditor example_ready_world)
           \<and> root' (jsoneditor example_ready_world) \<noteq> None"
    by (simp add: example_ready_world_def example_editor_def)
  from destroy_gated_idempotent [of example_editor] a
  have 1: "destroy example_editor = (Inr (), example_editor)" by blast
  from destroy_gated_idempotent [of "jsoneditor example_ready_world"] b
  show ?thesis using 1 by (simp add: Let_def)
qed

subsection \<open>The cached validation result\<close>

lemma validate_other_arity:
  "ready e \<Longrightarrow> length args \<noteq> 1 \<Longrightarrow> validate D args e = (Inr (validation_results e), e)"
  by (simp add: validate_def)

lemma validate_one_arg:
  "ready e \<Longrightarrow> validator e = Some vd \<Longrightarrow>
     validate D [v] e =
       (case Validator_validate D vd v of Inl err \<Rightarrow> Inl err | Inr errs \<Rightarrow> Inr (Some errs), e)"
  by (simp add: validate_def split: sum.splits)

lemma trigger_jsoneditor [simp]: "jsoneditor (trigger ev w) = jsoneditor w"
  by (simp add: trigger_def)

lemma ready_frame_caches:
  "ready (jsoneditor w) \<Longrightarrow> validate_root D (jsoneditor w) = Inr errs \<Longrightarrow>
     validation_results (jsoneditor (snd (ready_frame D w))) = Some errs \<and>
     ready (jsoneditor (snd (ready_frame D w)))"
  by (simp add: ready_frame_def Let_def)

lemma change_frame_caches:
  "ready (jsoneditor w) \<Longrightarrow> validate_root D (jsoneditor w) = Inr errs \<Longrightarrow>
     validation_results (jsoneditor (snd (change_frame D w))) = Some errs \<and>
     ready (jsoneditor (snd (change_frame D w)))"
  by (simp add: change_frame_def validate_root_def Let_def split: option.splits)

lemma load_callback_caches:
  "load_callback D s w = (Inr (), w') \<Longrightarrow>
     \<exists>vd r errs. Validator_validate D vd (root_getValue D r) = Inr errs \<and>
        validator (jsoneditor w') = Some vd \<and>
        root' (jsoneditor w') = Some (root_showValidationErrors D errs r) \<and>
        validation_results (jsoneditor w') = Some errs \<and> ready (jsoneditor w')"
  by (auto simp: load_callback_def Let_def split: option.splits sum.splits)


lemma validate_arity_cases:
  assumes "ready e"
  shows "validate D [] e = (Inr (validation_results e), e) \<and>
         (length args \<noteq> 1 \<longrightarrow> validate D args e = (Inr (validation_results e), e)) \<and>
         (validator e = Some vd \<longrightarrow>
            validate D [v] e =
              (case Validator_validate D vd v of Inl err \<Rightarrow> Inl err | Inr errs \<Rightarrow> Inr (Some errs), e))"
  using assms validate_other_arity [of e "[]" D] validate_other_arity [of e args D]
    validate_one_arg [of e vd D v]
  by simp

lemma internal_pass_fills_cache:
  "(ready (jsoneditor w) \<and> validate_root D (jsoneditor w) = Inr errs \<longrightarrow>
      validate D' [] (jsoneditor (snd (ready_frame D w)))
        = (Inr (Some errs), jsoneditor (snd (ready_frame D w))) \<and>
      validate D' [] (jsoneditor (snd (change_frame D w)))
        = (Inr (Some errs), jsoneditor (snd (change_frame D w)))) \<and>
   (load_callback D s w = (Inr (), w') \<longrightarrow>
      (\<exists>vd r errs'. Validator_validate D vd (root_getValue D r) = Inr errs' \<and>
          validator (jsoneditor w') = Some vd \<and>
          root' (jsoneditor w') = Some (root_showValidationErrors D errs' r) \<and>
          validate D' [] (jsoneditor w') = (Inr (Some errs'), jsoneditor w')))"
proof (intro conjI impI)
  assume a: "ready (jsoneditor w) \<and> validate_root D (jsoneditor w) = Inr errs"
  with ready_frame_caches [of w D errs]
  show "validate D' [] (jsoneditor (snd (ready_frame D w)))
        = (Inr (Some errs), jsoneditor (snd (ready_frame D w)))"
    by (simp add: validate_other_arity)
  from a change_frame_caches [of w D errs]
  show "validate D' [] (jsoneditor (snd (change_frame D w)))
        = (Inr (Some errs), jsoneditor (snd (change_frame D w)))"
    by (simp add: validate_other_arity)
next
  assume "load_callback D s w = (Inr (), w')"
  from load_callback_caches [OF this]
  obtain vd r errs' where h: "Validator_validate D vd (root_getValue D r) = Inr errs'"
    "validator (jsoneditor w') = Some vd"
    "root' (jsoneditor w') = Some (root_showValidationErrors D errs' r)"
    "validation_results (jsoneditor w') = Some errs'" "ready (jsoneditor w')"
    by blast
  then have "validate D' [] (jsoneditor w') = (Inr (Some errs'), jsoneditor w')"
    by (simp add: validate_other_arity)
  with h show "\<exists>vd r errs'. Validator_validate D vd (root_getValue D r) = Inr errs' \<and>
          validator (jsoneditor w') = Some vd \<and>
          root' (jsoneditor w') = Some (root_showValidationErrors D errs' r) \<and>
          validate D' [] (jsoneditor w') = (Inr (Some errs'), jsoneditor w')"
    by blast
qed

text \<open>
  Claim C8.  On a ready editor, \<open>validate\<close> called with no argument (or with any number
  of arguments other than one) returns the cached \<open>validation_results\<close> and leaves the
  editor unchanged, whatever the validator would do; called with exactly one argument it
  returns what \<open>validator.validate\<close> gives for that argument.  The cache is what the last
  internal validation pass stored: after the load callback, the deferred ready step or the
  deferred change step has run, a call with no argument returns the errors the validator
  computed, in that pass, for the root editor's value.
\<close>

theorem validate_cached_unless_one_argument:
  "(ready e \<longrightarrow>
      validate D [] e = (Inr (validation_results e), e) \<and>
      (length args \<noteq> 1 \<longrightarrow> validate D args e = (Inr (validation_results e), e)) \<and>
      (validator e = Some vd \<longrightarrow>
         validate D [v] e =
           (case Validator_validate D vd v of Inl err \<Rightarrow> Inl err | Inr errs \<Rightarrow> Inr (Some errs), e))) \<and>
   (ready (jsoneditor w) \<and> validate_root D (jsoneditor w) = Inr errs \<longrightarrow>
      validate D' [] (jsoneditor (snd (ready_frame D w)))
        = (Inr (Some errs), jsoneditor (snd (ready_frame D w))) \<and>
      validate D' [] (jsoneditor (snd (change_frame D w)))
        = (Inr (Some errs), jsoneditor (snd (change_frame D w)))) \<and>
   (load_callback D s w = (Inr (), w') \<longrightarrow>
      (\<exists>vd r errs'. Validator_validate D vd (root_getValue D r) = Inr errs' \<and>
          validator (jsoneditor w') = Some vd \<and>
          root' (jsoneditor w') = Some (root_showValidationErrors D errs' r) \<and>
          validate D' [] (jsoneditor w') = (Inr (Some errs'), jsoneditor w')))"
  using validate_arity_cases [of e D args vd v] internal_pass_fills_cache [of w D errs D' s w']
  by blast

theorem validate_cached_unless_one_argument_witness:
  "ready (jsoneditor example_ready_world) \<and>
   validate example_deps [] (jsoneditor example_ready_world)
     = (Inr (Some []), jsoneditor example_ready_world) \<and>
   validate example_deps [JNull, JNull] (jsoneditor example_ready_world)
     = (Inr (Some []), jsoneditor example_ready_world) \<and>
   validate example_deps [JNull] (jsoneditor example_ready_world)
     = (Inr (Some [\<lparr>path = [], property = ''type'', message = ''Value must be of type object''\<rparr>]),
        jsoneditor example_ready_world)"
proof -
  have r: "ready (jsoneditor example_ready_world)"
    by (simp add: example_ready_world_def)
  have v: "validator (jsoneditor example_ready_world) = Some ()"
    by (simp add: example_ready_world_def)
  have c: "validation_results (jsoneditor example_ready_world) = Some []"
    by (simp add: example_ready_world_def)
  from validate_cached_unless_one_argument
    [of "jsoneditor example_ready_world" example_deps "[JNull, JNull]" "()" JNull]
  have "validate example_deps [] (jsoneditor example_ready_world)
          = (Inr (validation_results (jsoneditor example_ready_world)), jsoneditor example_ready_world) \<and>
        validate example_deps [JNull, JNull] (jsoneditor example_ready_world)
          = (Inr (validation_results (jsoneditor example_ready_world)), jsoneditor example_ready_world) \<and>
        validate example_deps [JNull] (jsoneditor example_ready_world)
          = (case Validator_validate example_deps () JNull of
               Inl err \<Rightarrow> Inl err | Inr errs \<Rightarrow> Inr (Some errs), jsoneditor example_ready_world)"
    using r v by simp
  with r c show ?thesis by (simp add: example_deps_def)
qed


subsection \<open>Deferred steps and \<open>destroy\<close>\<close>

text \<open>
  Claim C5, as stated, fails: \<open>destroy\<close> called before the loader has called back
  returns at its \<open>ready\<close> gate, and the load callback that arrives afterwards builds the
  editor and sets \<open>ready\<close>.
\<close>

theorem destroy_before_load_counterexample:
  "fst (destroy_world example_world) = Inr () \<and>
   snd (load_callback example_deps (JObj [(''type'', JStr ''object'')])
          (snd (destroy_world example_world)))
     \<noteq> snd (destroy_world example_world) \<and>
   ready (jsoneditor (snd (load_callback example_deps (JObj [(''type'', JStr ''object'')])
          (snd (destroy_world example_world)))))"
proof -
  have d: "destroy_world example_world = (Inr (), example_world)"
    by (simp add: destroy_world_def destroy_def example_world_def example_editor_def)
  have "frames example_ready_world \<noteq> frames example_world"
    by (simp add: example_ready_world_def example_world_def)
  then have "example_ready_world \<noteq> example_world" by auto
  then show ?thesis
    by (simp add: d load_callback_example) (simp add: example_ready_world_def)
qed

lemma ready_frame_not_ready: "\<not> ready (jsoneditor w) \<Longrightarrow> ready_frame D w = (Inr (), w)"
  by (simp add: ready_frame_def)

lemma change_frame_not_ready:
  "\<not> ready (jsoneditor w) \<Longrightarrow>
     change_frame D w = (Inr (), w\<lparr>jsoneditor := (jsoneditor w)\<lparr>firing_change := False\<rparr>\<rparr>)"
  by (simp add: change_frame_def Let_def)

lemma destroy_world_not_ready: "\<not> ready (jsoneditor w) \<Longrightarrow> destroy_world w = (Inr (), w)"
  by (simp add: destroy_world_def destroy_def)

lemma destroy_world_effective:
  assumes "\<not> destroyed (jsoneditor w)" "ready (jsoneditor w)" "root' (jsoneditor w) \<noteq> None"
  shows "fst (destroy_world w) = Inr ()" and "\<not> ready (jsoneditor (snd (destroy_world w)))"
    and "frames (snd (destroy_world w)) = frames w"
    and "invoked (snd (destroy_world w)) = invoked w"
  using assms destroy_clears(1,2) [of "jsoneditor w"]
  by (auto simp: destroy_world_def split: prod.splits)

text \<open>
  Claim C5, amended.  A \<open>destroy\<close> made while the editor is not ready changes nothing,
  and the load callback then runs as if \<open>destroy\<close> had not been called.  After a
  \<open>destroy\<close> of a ready editor, the deferred ready step changes nothing and calls no
  handler, and the deferred change step only resets \<open>firing_change\<close> and calls no handler.
\<close>

theorem deferred_steps_after_destroy:
  "(\<not> ready (jsoneditor w) \<longrightarrow>
      destroy_world w = (Inr (), w) \<and>
      load_callback D s (snd (destroy_world w)) = load_callback D s w) \<and>
   (\<not> destroyed (jsoneditor w) \<and> ready (jsoneditor w) \<and> root' (jsoneditor w) \<noteq> None \<longrightarrow>
      fst (destroy_world w) = Inr () \<and>
      ready_frame D (snd (destroy_world w)) = (Inr (), snd (destroy_world w)) \<and>
      change_frame D (snd (destroy_world w))
        = (Inr (), (snd (destroy_world w))
             \<lparr>jsoneditor := (jsoneditor (snd (destroy_world w)))\<lparr>firing_change := False\<rparr>\<rparr>) \<and>
      (frames w = ReadyFrame # rest \<longrightarrow>
         run_frame D (snd (destroy_world w)) = (Inr (), (snd (destroy_world w))\<lparr>frames := rest\<rparr>)))"
proof (intro conjI impI)
  assume "\<not> ready (jsoneditor w)"
  then show d: "destroy_world w = (Inr (), w)" by (rule destroy_world_not_ready)
  then show "load_callback D s (snd (destroy_world w)) = load_callback D s w" by simp
next
  assume a: "\<not> destroyed (jsoneditor w) \<and> ready (jsoneditor w) \<and> root' (jsoneditor w) \<noteq> None"
  then show "fst (destroy_world w) = Inr ()" by (simp add: destroy_world_effective)
  from a have nr: "\<not> ready (jsoneditor (snd (destroy_world w)))"
    by (simp add: destroy_world_effective)
  then show "ready_frame D (snd (destroy_world w)) = (Inr (), snd (destroy_world w))"
    by (rule ready_frame_not_ready)
  from nr show "change_frame D (snd (destroy_world w))
        = (Inr (), (snd (destroy_world w))
             \<lparr>jsoneditor := (jsoneditor (snd (destroy_world w)))\<lparr>firing_change := False\<rparr>\<rparr>)"
    by (rule change_frame_not_ready)
  assume f: "frames w = ReadyFrame # rest"
  from a have "frames (snd (destroy_world w)) = frames w" by (simp add: destroy_world_effective)
  with f nr show "run_frame D (snd (destroy_world w)) = (Inr (), (snd (destroy_world w))\<lparr>frames := rest\<rparr>)"
    by (simp add: run_frame_def ready_frame_def)
qed

theorem deferred_steps_after_destroy_witness:
  "\<not> ready (jsoneditor example_world) \<and>
   destroy_world example_world = (Inr (), example_world) \<and>
   \<not> destroyed (jsoneditor example_ready_world) \<and> ready (jsoneditor example_ready_world) \<and>
   root' (jsoneditor example_ready_world) \<noteq> None \<and>
   frames example_ready_world = [ReadyFrame] \<and>
   run_frame example_deps (snd (destroy_world example_ready_world))
     = (Inr (), (snd (destroy_world example_ready_world))\<lparr>frames := []\<rparr>)"
proof -
  have a: "\<not> ready (jsoneditor example_world)"
    by (simp add: example_world_def example_editor_def)
  have b: "\<not> destroyed (jsoneditor example_ready_world) \<and> ready (jsoneditor example_ready_world) \<and>
           root' (jsoneditor example_ready_world) \<noteq> None"
    by (simp add: example_ready_world_def example_editor_def)
  have f: "frames example_ready_world = ReadyFrame # []"
    by (simp add: example_ready_world_def)
  from deferred_steps_after_destroy [of example_world example_deps JNull "[]"] a
  have 1: "destroy_world example_world = (Inr (), example_world)" by blast
  from deferred_steps_after_destroy [of example_ready_world example_deps JNull "[]"] b f
  have 2: "run_frame example_deps (snd (destroy_world example_ready_world))
     = (Inr (), (snd (destroy_world example_ready_world))\<lparr>frames := []\<rparr>)" by blast
  from a b f 1 2 show ?thesis by simp
qed

section \<open>Properties of the validation engine\<close>

subsection \<open>Error paths\<close>

lemma shift_verr [simp]: "shift q (verr p k m) = verr (q @ p) k m"
  by (simp add: shift_def verr_def)

lemma shift_message [simp]: "message (shift q e) = message e"
  by (simp add: shift_def)



















lemma passing_map_shift [simp]: "passing (map (map (shift q)) ess) = passing ess"
  by (induction ess) (simp_all add: passing_def)










subsection \<open>Runs on well-formed graphs settle\<close>

lemma settled_Done [simp]: "settled V (Done es)"
  by (simp add: settled_def)








































subsection \<open>A deeper run changes no result\<close>

lemma no_less_refl [simp]: "no_less r r"
  by (simp add: no_less_def)



















subsection \<open>What a finished run contains\<close>
















subsection \<open>The two schemas of the specification\<close>











subsection \<open>Runs of the validator object\<close>










subsection \<open>Runs that go through every kind of descent\<close>







subsection \<open>Values deeper than the host allows\<close>







section \<open>Properties of the schema loader\<close>


subsection \<open>The table\<close>

lemma fst_set_entry [simp]: "map fst (set_entry u e T) = map fst T"
  by (induction T) (auto simp: set_entry_def)

lemma keys_set_entry [simp]: "fst ` set (set_entry u e T) = fst ` set T"
  using fst_set_entry [of u e T] by (metis set_map)

lemma map_of_set_entry:
  "map_of (set_entry u e T) k = (if k = u \<and> map_of T u \<noteq> None then Some e else map_of T k)"
  by (induction T) (auto simp: set_entry_def)

lemma map_of_append_new:
  "map_of T u = None \<Longrightarrow> map_of (T @ [(u, e)]) k = (if k = u then Some e else map_of T k)"
  by (auto simp: map_add_def split: option.splits)

lemma map_of_None_iff: "map_of T u = None \<longleftrightarrow> u \<notin> fst ` set T"
  by (simp add: map_of_eq_None_iff)

lemma pending_iff:
  "distinct (map fst T) \<Longrightarrow> u \<in> set (map fst (filter (\<lambda>(u, e). is_pending e) T))
     \<longleftrightarrow> (\<exists>subs. map_of T u = Some (Pending subs))"
  by (induction T) (auto simp: is_pending_def split: entry.splits dest: weak_map_of_SomeI)

lemma pending_mem:
  "distinct (map fst (l_table st)) \<Longrightarrow>
     u \<in> set (pending st) \<longleftrightarrow> (\<exists>subs. map_of (l_table st) u = Some (Pending subs))"
  unfolding pending_def by (rule pending_iff)

subsection \<open>Soundness of the bookkeeping\<close>

lemma sound_fail [simp]: "sound (fail msg st) = sound st"
  by (simp add: sound_def fail_def pending_def)

lemma sound_settle [simp]: "sound (settle st) = sound st"
  by (simp add: sound_def settle_def pending_def)

lemma sound_visit: "sound st \<Longrightarrow> sound (visit resolve base st r)"
proof -
  assume s: "sound st"
  obtain doc ptr where rs: "resolve base r = (doc, ptr)" by (cases "resolve base r")
  show ?thesis
  proof (cases "l_status st = Loading")
    case False
    with s show ?thesis by (simp add: visit_def)
  next
    case True
    show ?thesis
    proof (cases "map_of (l_table st) doc")
      case None
      then have new: "doc \<notin> fst ` set (l_table st)" by (simp add: map_of_None_iff)
      with s have nf: "doc \<notin> set (l_fetched st)" by (auto simp: sound_def)
      have v: "visit resolve base st r
                 = st\<lparr>l_table := l_table st @ [(doc, Pending [ptr])],
                      l_fetched := l_fetched st @ [doc]\<rparr>"
        using True rs None by (simp add: visit_def)
      from s new nf show ?thesis
        unfolding v by (auto simp: sound_def pending_def is_pending_def)
    next
      case (Some e)
      show ?thesis
      proof (cases e)
        case (Resolved d)
        with s True rs Some show ?thesis
          by (cases "json_pointer d ptr") (simp_all add: visit_def)
      next
        case (Pending subs)
        have v: "visit resolve base st r
                   = st\<lparr>l_table := set_entry doc (Pending (subs @ [ptr])) (l_table st)\<rparr>"
          using True rs Some Pending by (simp add: visit_def)
        have d: "distinct (map fst (l_table st))" using s by (simp add: sound_def)
        have "set (pending (st\<lparr>l_table := set_entry doc (Pending (subs @ [ptr])) (l_table st)\<rparr>))
                = set (pending st)"
        proof (rule set_eqI)
          fix u
          show "u \<in> set (pending (st\<lparr>l_table := set_entry doc (Pending (subs @ [ptr])) (l_table st)\<rparr>))
                  \<longleftrightarrow> u \<in> set (pending st)"
            using d Some Pending
            by (auto simp: pending_mem map_of_set_entry)
        qed
        with s show ?thesis unfolding v by (simp add: sound_def)
      qed
    qed
  qed
qed

lemma sound_visits: "sound st \<Longrightarrow> sound (fold (\<lambda>r s. visit resolve base s r) rs st)"
  by (induction rs arbitrary: st) (simp_all add: sound_visit)

lemma sound_traverse: "sound st \<Longrightarrow> sound (traverse resolve base d st)"
  unfolding traverse_def by (rule sound_visits)

lemma resume_one_fields [simp]:
  "l_table (resume_one uri d st ptr) = l_table st"
  "l_fetched (resume_one uri d st ptr) = l_fetched st"
  "l_root (resume_one uri d st ptr) = l_root st"
  "l_resolved (resume_one uri d st ptr) = l_resolved st"
  by (auto simp: resume_one_def fail_def split: option.splits)

lemma resume_fields [simp]:
  "l_table (resume uri d subs st) = l_table st"
  "l_fetched (resume uri d subs st) = l_fetched st"
  "l_root (resume uri d subs st) = l_root st"
  "l_resolved (resume uri d subs st) = l_resolved st"
  unfolding resume_def
  by (induction subs arbitrary: st) simp_all

lemma sound_resume [simp]: "sound (resume uri d subs st) = sound st"
  by (simp add: sound_def pending_def)

lemma sound_arrival:
  assumes "sound st" and "map_of (l_table st) uri = Some (Pending subs)"
  shows "sound (st\<lparr>l_table := set_entry uri (Resolved d) (l_table st)\<rparr>)"
proof -
  have d: "distinct (map fst (l_table st))" using assms(1) by (simp add: sound_def)
  have "set (pending (st\<lparr>l_table := set_entry uri (Resolved d) (l_table st)\<rparr>)) \<subseteq> set (pending st)"
  proof
    fix u
    assume "u \<in> set (pending (st\<lparr>l_table := set_entry uri (Resolved d) (l_table st)\<rparr>))"
    then show "u \<in> set (pending st)"
      using d assms(2) by (auto simp: pending_mem map_of_set_entry split: if_splits)
  qed
  with assms(1) show ?thesis by (auto simp: sound_def)
qed

lemma sound_complete: "sound st \<Longrightarrow> sound (complete resolve uri resp st)"
  by (auto simp: complete_def sound_traverse sound_arrival
      split: option.splits entry.splits response.splits)

lemma sound_load: "sound (load resolve rootSchema base)"
proof -
  have "sound \<lparr>l_root = root_node rootSchema,
        l_table = [(base, Resolved (root_node rootSchema))],
        l_fetched = [], l_status = Loading, l_resolved = [], l_errors = []\<rparr>"
    by (simp add: sound_def pending_def is_pending_def)
  then show ?thesis by (simp add: load_def sound_traverse)
qed

lemma sound_deliver: "sound st \<Longrightarrow> sound (deliver resolve evs st)"
  unfolding deliver_def
  by (induction evs arbitrary: st) (auto simp: sound_complete)

subsection \<open>Calls of \<open>onResolved\<close>\<close>

lemma visit_root [simp]: "l_root (visit resolve base st r) = l_root st"
  by (auto simp: visit_def fail_def split: prod.splits option.splits entry.splits)

lemma visit_status:
  "l_status (visit resolve base st r) = Loading \<Longrightarrow> l_status st = Loading"
  by (auto simp: visit_def split: if_splits)

lemma visit_not_finished:
  "l_status st \<noteq> Finished \<Longrightarrow> l_status (visit resolve base st r) \<noteq> Finished"
  by (auto simp: visit_def fail_def split: prod.splits option.splits entry.splits)

lemma accounted_visit:
  "accounted st \<Longrightarrow> l_status st \<noteq> Finished \<Longrightarrow> accounted (visit resolve base st r)"
  by (auto simp: visit_def fail_def accounted_def
      split: prod.splits option.splits entry.splits load_status.splits)

lemma accounted_visits:
  "accounted st \<Longrightarrow> l_status st \<noteq> Finished \<Longrightarrow>
     accounted (fold (\<lambda>r s. visit resolve base s r) rs st) \<and>
     l_status (fold (\<lambda>r s. visit resolve base s r) rs st) \<noteq> Finished"
  by (induction rs arbitrary: st) (simp_all add: accounted_visit visit_not_finished)

lemma accounted_resume_one:
  "accounted st \<Longrightarrow> l_status st \<noteq> Finished \<Longrightarrow>
     accounted (resume_one uri d st ptr) \<and> l_status (resume_one uri d st ptr) \<noteq> Finished"
  by (auto simp: resume_one_def fail_def accounted_def split: option.splits load_status.splits)

lemma accounted_resume:
  "accounted st \<Longrightarrow> l_status st \<noteq> Finished \<Longrightarrow>
     accounted (resume uri d subs st) \<and> l_status (resume uri d subs st) \<noteq> Finished"
  unfolding resume_def
  by (induction subs arbitrary: st) (simp_all add: accounted_resume_one)

lemma accounted_settle:
  "accounted st \<Longrightarrow> l_status st \<noteq> Finished \<Longrightarrow> accounted (settle st)"
  by (auto simp: settle_def accounted_def pending_def split: load_status.splits)

lemma settle_waits:
  "l_status (settle st) = Loading \<Longrightarrow> pending (settle st) \<noteq> []"
  by (auto simp: settle_def split: if_splits)


subsection \<open>References taken care of\<close>

lemma mem_set_entry:
  "(b, x) \<in> set (set_entry u e T) \<longleftrightarrow>
     (b \<noteq> u \<and> (b, x) \<in> set T) \<or> (b = u \<and> x = e \<and> u \<in> fst ` set T)"
proof (induction T)
  case Nil
  show ?case by (simp add: set_entry_def)
next
  case (Cons kv T)
  obtain k y where kv: "kv = (k, y)" by (cases kv)
  have "set_entry u e (kv # T) = (if k = u then (k, e) else (k, y)) # set_entry u e T"
    by (simp add: set_entry_def kv)
  with Cons kv show ?case by (cases "k = u") auto
qed

lemma visits_status:
  "l_status (fold (\<lambda>r s. visit resolve base s r) rs st) = Loading \<Longrightarrow> l_status st = Loading"
  by (induction rs arbitrary: st) (auto dest: visit_status)

lemma visit_table_cases:
  assumes "distinct (map fst (l_table st))"
  shows "l_table (visit resolve base st r) = l_table st \<or>
         (\<exists>doc subs ptr. map_of (l_table st) doc = Some (Pending subs) \<and>
            l_table (visit resolve base st r) = set_entry doc (Pending (subs @ [ptr])) (l_table st)) \<or>
         (\<exists>doc ptr. map_of (l_table st) doc = None \<and>
            l_table (visit resolve base st r) = l_table st @ [(doc, Pending [ptr])])"
  by (auto simp: visit_def fail_def split: prod.splits option.splits entry.splits)

lemma ok_ref_visit:
  assumes d: "distinct (map fst (l_table st))" and ok: "ok_ref resolve (l_table st) b r"
  shows "ok_ref resolve (l_table (visit resolve base st r')) b r"
proof -
  obtain doc ptr where rs: "resolve b r = (doc, ptr)" by (cases "resolve b r")
  from visit_table_cases [OF d, of resolve base r']
  consider (same) "l_table (visit resolve base st r') = l_table st"
    | (sub) doc' subs ptr' where "map_of (l_table st) doc' = Some (Pending subs)"
        "l_table (visit resolve base st r') = set_entry doc' (Pending (subs @ [ptr'])) (l_table st)"
    | (new) doc' ptr' where "map_of (l_table st) doc' = None"
        "l_table (visit resolve base st r') = l_table st @ [(doc', Pending [ptr'])]"
    by blast
  then show ?thesis
  proof cases
    case same
    with ok show ?thesis by simp
  next
    case sub
    with ok rs show ?thesis
      by (auto simp: ok_ref_def map_of_set_entry split: option.splits entry.splits)
  next
    case new
    with ok rs show ?thesis
      by (auto simp: ok_ref_def map_add_def split: option.splits entry.splits)
  qed
qed

lemma ok_ref_visits:
  assumes "sound st" and "ok_ref resolve (l_table st) b r"
  shows "ok_ref resolve (l_table (fold (\<lambda>r s. visit resolve base s r) rs st)) b r"
  using assms
proof (induction rs arbitrary: st)
  case Nil
  then show ?case by simp
next
  case (Cons r' rs)
  from Cons.prems(1) have "distinct (map fst (l_table st))" by (simp add: sound_def)
  from ok_ref_visit [OF this Cons.prems(2)] sound_visit [OF Cons.prems(1)]
  show ?case by (simp add: Cons.IH)
qed

lemma visit_establishes:
  assumes d: "distinct (map fst (l_table st))"
    and l: "l_status (visit resolve base st r) = Loading"
  shows "ok_ref resolve (l_table (visit resolve base st r)) base r"
proof -
  obtain doc ptr where rs: "resolve base r = (doc, ptr)" by (cases "resolve base r")
  from l have l0: "l_status st = Loading" by (rule visit_status)
  show ?thesis
  proof (cases "map_of (l_table st) doc")
    case None
    with l0 rs show ?thesis
      by (simp add: visit_def ok_ref_def map_add_def)
  next
    case (Some e)
    show ?thesis
    proof (cases e)
      case (Pending subs)
      with Some l0 rs show ?thesis
        by (simp add: visit_def ok_ref_def map_of_set_entry)
    next
      case (Resolved d')
      with Some l0 rs l show ?thesis
        by (cases "json_pointer d' ptr") (simp_all add: visit_def ok_ref_def fail_def)
    qed
  qed
qed

lemma resolved_kept_visit:
  assumes d: "distinct (map fst (l_table st))"
  shows "(b, Resolved x) \<in> set (l_table (visit resolve base st r)) \<longleftrightarrow> (b, Resolved x) \<in> set (l_table st)"
proof -
  from visit_table_cases [OF d, of resolve base r]
  consider (same) "l_table (visit resolve base st r) = l_table st"
    | (sub) doc' subs ptr' where "map_of (l_table st) doc' = Some (Pending subs)"
        "l_table (visit resolve base st r) = set_entry doc' (Pending (subs @ [ptr'])) (l_table st)"
    | (new) doc' ptr' where "map_of (l_table st) doc' = None"
        "l_table (visit resolve base st r) = l_table st @ [(doc', Pending [ptr'])]"
    by blast
  then show ?thesis
  proof cases
    case same
    then show ?thesis by simp
  next
    case sub
    from sub(1) have "(doc', Pending subs) \<in> set (l_table st)" by (rule map_of_SomeD)
    with d have "(doc', Resolved x) \<notin> set (l_table st)"
      by (metis entry.distinct(1) map_of_is_SomeI option.inject)
    then show ?thesis
      unfolding sub(2) by (auto simp: mem_set_entry)
  next
    case new
    then show ?thesis by auto
  qed
qed

lemma resolved_kept_visits:
  assumes "sound st"
  shows "(b, Resolved x) \<in> set (l_table (fold (\<lambda>r s. visit resolve base s r) rs st))
           \<longleftrightarrow> (b, Resolved x) \<in> set (l_table st)"
  using assms
proof (induction rs arbitrary: st)
  case Nil
  show ?case by simp
next
  case (Cons r rs)
  from Cons.prems have "distinct (map fst (l_table st))" by (simp add: sound_def)
  from resolved_kept_visit [OF this] sound_visit [OF Cons.prems] show ?case
    by (simp add: Cons.IH)
qed

lemma visits_establish:
  assumes "sound st" and "l_status (fold (\<lambda>r s. visit resolve base s r) rs st) = Loading"
    and "r \<in> set rs"
  shows "ok_ref resolve (l_table (fold (\<lambda>r s. visit resolve base s r) rs st)) base r"
  using assms
proof (induction rs arbitrary: st)
  case Nil
  then show ?case by simp
next
  case (Cons r' rs)
  let ?st1 = "visit resolve base st r'"
  have s1: "sound ?st1" using Cons.prems(1) by (rule sound_visit)
  from Cons.prems(2) have fin: "l_status (fold (\<lambda>r s. visit resolve base s r) rs ?st1) = Loading"
    by simp
  show ?case
  proof (cases "r \<in> set rs")
    case True
    from Cons.IH [OF s1 fin True] show ?thesis by simp
  next
    case False
    with Cons.prems(3) have "r = r'" by simp
    from visits_status [OF fin] have "l_status ?st1 = Loading" .
    moreover from Cons.prems(1) have "distinct (map fst (l_table st))" by (simp add: sound_def)
    ultimately have "ok_ref resolve (l_table ?st1) base r'" by (rule visit_establishes [rotated])
    from ok_ref_visits [OF s1 this] \<open>r = r'\<close> show ?thesis by simp
  qed
qed

lemma covered_traverse:
  assumes s: "sound st" and c: "covered resolve (l_table st) {base}"
    and e: "(base, Resolved d) \<in> set (l_table st)"
    and l: "l_status (traverse resolve base d st) = Loading"
  shows "covered resolve (l_table (traverse resolve base d st)) {}"
  unfolding covered_def
proof (intro allI impI)
  fix b x r
  let ?st' = "traverse resolve base d st"
  assume a: "(b, Resolved x) \<in> set (l_table ?st') \<and> b \<notin> {} \<and> r \<in> set (refs_in x)"
  then have m: "(b, Resolved x) \<in> set (l_table st)"
    using resolved_kept_visits [OF s] by (simp add: traverse_def)
  show "ok_ref resolve (l_table ?st') b r"
  proof (cases "b = base")
    case True
    from s have "distinct (map fst (l_table st))" by (simp add: sound_def)
    with m e True have "x = d" by (metis map_of_is_SomeI option.inject entry.inject(2))
    with a have "r \<in> set (refs_in d)" by simp
    from visits_establish [OF s l [unfolded traverse_def] this] True
    show ?thesis by (simp add: traverse_def)
  next
    case False
    with c m a have "ok_ref resolve (l_table st) b r" by (auto simp: covered_def)
    from ok_ref_visits [OF s this] show ?thesis by (simp add: traverse_def)
  qed
qed


subsection \<open>The loader between completions\<close>

lemma resume_one_status:
  "l_status (resume_one uri d st ptr) = Loading \<Longrightarrow>
     l_status st = Loading \<and> json_pointer d ptr \<noteq> None"
  by (auto simp: resume_one_def fail_def split: if_splits option.splits)

lemma resume_checks:
  "l_status (resume uri d subs st) = Loading \<Longrightarrow>
     l_status st = Loading \<and> (\<forall>ptr \<in> set subs. json_pointer d ptr \<noteq> None)"
  unfolding resume_def
proof (induction subs arbitrary: st)
  case Nil
  then show ?case by simp
next
  case (Cons ptr subs)
  from Cons.IH [of "resume_one uri d st ptr"] Cons.prems
  have "l_status (resume_one uri d st ptr) = Loading"
    and rest: "\<forall>ptr \<in> set subs. json_pointer d ptr \<noteq> None"
    by simp_all
  from resume_one_status [OF this(1)] rest show ?case by simp
qed

lemma pending_resume [simp]: "pending (resume uri d subs st) = pending st"
  by (simp add: pending_def)

lemma covered_arrival:
  assumes d: "distinct (map fst T)" and c: "covered resolve T {}"
    and p: "map_of T uri = Some (Pending subs)"
    and ok: "\<forall>ptr \<in> set subs. json_pointer doc ptr \<noteq> None"
  shows "covered resolve (set_entry uri (Resolved doc) T) {uri}"
  unfolding covered_def
proof (intro allI impI)
  fix b x r
  assume a: "(b, Resolved x) \<in> set (set_entry uri (Resolved doc) T) \<and> b \<notin> {uri} \<and> r \<in> set (refs_in x)"
  then have m: "(b, Resolved x) \<in> set T" and r: "r \<in> set (refs_in x)"
    by (auto simp: mem_set_entry)
  with c have o: "ok_ref resolve T b r" by (auto simp: covered_def)
  obtain target ptr where rs: "resolve b r = (target, ptr)" by (cases "resolve b r")
  show "ok_ref resolve (set_entry uri (Resolved doc) T) b r"
  proof (cases "target = uri")
    case True
    with o rs p have "ptr \<in> set subs" by (simp add: ok_ref_def)
    with ok have "json_pointer doc ptr \<noteq> None" by blast
    with True rs p show ?thesis by (simp add: ok_ref_def map_of_set_entry)
  next
    case False
    with o rs show ?thesis by (simp add: ok_ref_def map_of_set_entry)
  qed
qed

lemma settle_fields [simp]:
  "l_table (settle st) = l_table st" "l_fetched (settle st) = l_fetched st"
  "l_root (settle st) = l_root st" "l_errors (settle st) = l_errors st"
  by (simp_all add: settle_def)

lemma settle_status_failed [simp]: "l_status (settle st) = Failed \<longleftrightarrow> l_status st = Failed"
  by (simp add: settle_def)

lemma visits_not_finished:
  "l_status st \<noteq> Finished \<Longrightarrow> l_status (fold (\<lambda>r s. visit resolve base s r) rs st) \<noteq> Finished"
  by (induction rs arbitrary: st) (simp_all add: visit_not_finished)


lemma steady_after_traverse:
  assumes s: "sound st" and a: "accounted st" and nf: "l_status st \<noteq> Finished"
    and c: "l_status st = Loading \<longrightarrow> covered resolve (l_table st) {base}"
    and e: "(base, Resolved d) \<in> set (l_table st)"
  shows "steady resolve (settle (traverse resolve base d st))"
proof -
  let ?st' = "traverse resolve base d st"
  have s': "sound ?st'" using s by (rule sound_traverse)
  from accounted_visits [OF a nf, of resolve base "refs_in d"]
  have a': "accounted ?st'" and nf': "l_status ?st' \<noteq> Finished"
    by (simp_all add: traverse_def)
  have cov: "covered resolve (l_table (settle ?st')) {}" if "l_status (settle ?st') \<noteq> Failed"
  proof -
    from that nf' have l: "l_status ?st' = Loading"
      by (cases "l_status ?st'") simp_all
    then have "l_status st = Loading"
      unfolding traverse_def by (rule visits_status)
    with c have "covered resolve (l_table st) {base}" by simp
    from covered_traverse [OF s this e l] show ?thesis by simp
  qed
  show ?thesis
    unfolding steady_def
    using s' accounted_settle [OF a' nf'] settle_waits [of ?st'] cov
    by simp
qed

lemma steady_load: "steady resolve (load resolve rootSchema base)"
  unfolding load_def
proof (rule steady_after_traverse)
  let ?st = "\<lparr>l_root = root_node rootSchema,
        l_table = [(base, Resolved (root_node rootSchema))],
        l_fetched = [], l_status = Loading, l_resolved = [], l_errors = []\<rparr>"
  show "sound ?st" by (simp add: sound_def pending_def is_pending_def)
  show "accounted ?st" by (simp add: accounted_def)
  show "l_status ?st \<noteq> Finished" by simp
  show "l_status ?st = Loading \<longrightarrow> covered resolve (l_table ?st) {base}"
    by (simp add: covered_def)
  show "(base, Resolved (root_node rootSchema)) \<in> set (l_table ?st)" by simp
qed

lemma steady_fail:
  assumes "steady resolve st" and "l_status st = Loading"
  shows "steady resolve (fail msg st)"
  using assms by (simp add: steady_def accounted_def fail_def pending_def sound_def)

lemma steady_complete:
  assumes st: "steady resolve st"
  shows "steady resolve (complete resolve uri resp st)"
proof (cases "l_status st = Loading")
  case False
  with st show ?thesis by (simp add: complete_def)
next
  case True
  show ?thesis
  proof (cases "\<exists>subs. map_of (l_table st) uri = Some (Pending subs)")
    case False
    with st show ?thesis
      by (auto simp: complete_def split: option.splits entry.splits)
  next
    case True
    then obtain subs where p: "map_of (l_table st) uri = Some (Pending subs)" by blast
    show ?thesis
    proof (cases resp)
      case (FetchError msg)
      with p \<open>l_status st = Loading\<close> steady_fail [OF st] show ?thesis
        by (simp add: complete_def)
    next
      case Malformed
      with p \<open>l_status st = Loading\<close> steady_fail [OF st] show ?thesis
        by (simp add: complete_def)
    next
      case (Fetched d)
      let ?st1 = "st\<lparr>l_table := set_entry uri (Resolved d) (l_table st)\<rparr>"
      let ?st2 = "resume uri d subs ?st1"
      from st have s: "sound st" and a: "accounted st"
        and c: "covered resolve (l_table st) {}"
        using \<open>l_status st = Loading\<close> by (simp_all add: steady_def)
      have s2: "sound ?st2" using sound_arrival [OF s p] by simp
      have a1: "accounted ?st1"
        using a \<open>l_status st = Loading\<close> by (simp add: accounted_def)
      have "l_status ?st1 \<noteq> Finished" using \<open>l_status st = Loading\<close> by simp
      from accounted_resume [OF a1 this]
      have a2: "accounted ?st2" and nf2: "l_status ?st2 \<noteq> Finished" by simp_all
      have c2: "l_status ?st2 = Loading \<longrightarrow> covered resolve (l_table ?st2) {uri}"
      proof
        assume "l_status ?st2 = Loading"
        from resume_checks [OF this] have ok: "\<forall>ptr \<in> set subs. json_pointer d ptr \<noteq> None" by simp
        from s have "distinct (map fst (l_table st))" by (simp add: sound_def)
        from covered_arrival [OF this c p ok] show "covered resolve (l_table ?st2) {uri}" by simp
      qed
      from p have "uri \<in> fst ` set (l_table st)"
        by (metis map_of_None_iff option.distinct(1))
      then have e2: "(uri, Resolved d) \<in> set (l_table ?st2)" by (simp add: mem_set_entry)
      from steady_after_traverse [OF s2 a2 nf2 c2 e2] Fetched p \<open>l_status st = Loading\<close>
      show ?thesis by (simp add: complete_def)
    qed
  qed
qed

lemma steady_deliver: "steady resolve st \<Longrightarrow> steady resolve (deliver resolve evs st)"
  unfolding deliver_def
  by (induction evs arbitrary: st) (auto simp: steady_complete)

lemma steady_all_resolved:
  assumes "steady resolve st" and "l_status st = Finished"
  shows "all_resolved resolve st"
proof -
  from assms have d: "distinct (map fst (l_table st))" and np: "pending st = []"
    and c: "covered resolve (l_table st) {}"
    by (simp_all add: steady_def sound_def accounted_def)
  have "\<exists>d'. map_of (l_table st) (fst (resolve b r)) = Some (Resolved d') \<and>
               json_pointer d' (snd (resolve b r)) \<noteq> None"
    if "(b, Resolved x) \<in> set (l_table st) \<and> r \<in> set (refs_in x)" for b x r
  proof -
    from c that have o: "ok_ref resolve (l_table st) b r" by (auto simp: covered_def)
    obtain target ptr where rs: "resolve b r = (target, ptr)" by (cases "resolve b r")
    show ?thesis
    proof (cases "map_of (l_table st) target")
      case None
      with o rs show ?thesis by (simp add: ok_ref_def)
    next
      case (Some e)
      show ?thesis
      proof (cases e)
        case (Pending subs)
        with Some have "target \<in> set (pending st)" using d by (simp add: pending_mem)
        with np show ?thesis by simp
      next
        case (Resolved d')
        with Some o rs show ?thesis by (simp add: ok_ref_def)
      qed
    qed
  qed
  with np show ?thesis unfolding all_resolved_def by blast
qed


subsection \<open>Fetches\<close>

lemma visits_root [simp]: "l_root (fold (\<lambda>r s. visit resolve base s r) rs st) = l_root st"
  by (induction rs arbitrary: st) simp_all

lemma complete_root [simp]: "l_root (complete resolve uri resp st) = l_root st"
  by (auto simp: complete_def traverse_def fail_def split: option.splits entry.splits response.splits)

lemma deliver_root [simp]: "l_root (deliver resolve evs st) = l_root st"
  unfolding deliver_def by (induction evs arbitrary: st) auto

lemma load_root [simp]: "l_root (load resolve rootSchema base) = root_node rootSchema"
  by (simp add: load_def traverse_def)

lemma deliver_ended:
  "l_status st \<noteq> Loading \<Longrightarrow> deliver resolve evs st = st"
  unfolding deliver_def by (induction evs) (auto simp: complete_def)

lemma visit_reuses:
  "map_of (l_table st) (fst (resolve base r)) \<noteq> None \<Longrightarrow>
     l_fetched (visit resolve base st r) = l_fetched st"
  by (auto simp: visit_def fail_def split: prod.splits option.splits entry.splits)

lemma rooted_visit:
  assumes "rooted base st"
  shows "rooted base (visit resolve b st r)"
proof -
  obtain doc ptr where rs: "resolve b r = (doc, ptr)" by (cases "resolve b r")
  show ?thesis
  proof (cases "l_status st = Loading")
    case False
    with assms show ?thesis by (simp add: visit_def)
  next
    case True
    show ?thesis
    proof (cases "map_of (l_table st) doc")
      case None
      then have "doc \<notin> fst ` set (l_table st)" by (simp add: map_of_None_iff)
      with assms have "doc \<noteq> base" by (auto simp: rooted_def)
      with assms True rs None show ?thesis
        by (auto simp: visit_def rooted_def)
    next
      case (Some e)
      with assms True rs show ?thesis
        by (cases e) (auto simp: visit_def rooted_def fail_def split: option.splits)
    qed
  qed
qed

lemma rooted_visits: "rooted base st \<Longrightarrow> rooted base (fold (\<lambda>r s. visit resolve b s r) rs st)"
  by (induction rs arbitrary: st) (simp_all add: rooted_visit)

lemma rooted_settle [simp]: "rooted base (settle st) = rooted base st"
  by (simp add: rooted_def)

lemma rooted_fail [simp]: "rooted base (fail msg st) = rooted base st"
  by (simp add: rooted_def fail_def)

lemma rooted_complete: "rooted base st \<Longrightarrow> rooted base (complete resolve uri resp st)"
proof -
  assume r: "rooted base st"
  have "rooted base (resume uri d subs (st\<lparr>l_table := set_entry uri (Resolved d) (l_table st)\<rparr>))"
    for d subs
    using r by (simp add: rooted_def)
  from rooted_visits [OF this]
  have "rooted base (settle (traverse resolve uri d
          (resume uri d subs (st\<lparr>l_table := set_entry uri (Resolved d) (l_table st)\<rparr>))))" for d subs
    by (simp add: traverse_def)
  with r show ?thesis
    by (simp add: complete_def split: option.splits entry.splits response.splits)
qed

lemma rooted_load: "rooted base (load resolve rootSchema base)"
proof -
  have "rooted base \<lparr>l_root = root_node rootSchema,
        l_table = [(base, Resolved (root_node rootSchema))],
        l_fetched = [], l_status = Loading, l_resolved = [], l_errors = []\<rparr>"
    by (simp add: rooted_def)
  from rooted_visits [OF this] show ?thesis by (simp add: load_def traverse_def)
qed

lemma rooted_deliver: "rooted base st \<Longrightarrow> rooted base (deliver resolve evs st)"
  unfolding deliver_def by (induction evs arbitrary: st) (auto simp: rooted_complete)

lemma visit_fetched_grows: "set (l_fetched st) \<subseteq> set (l_fetched (visit resolve base st r))"
  by (auto simp: visit_def fail_def split: prod.splits option.splits entry.splits)

lemma visits_fetched_grow:
  "set (l_fetched st) \<subseteq> set (l_fetched (fold (\<lambda>r s. visit resolve base s r) rs st))"
proof (induction rs arbitrary: st)
  case Nil
  show ?case by simp
next
  case (Cons r rs)
  from visit_fetched_grows [of st resolve base r] Cons [of "visit resolve base st r"]
  show ?case by auto
qed

lemma complete_fetched_grows: "set (l_fetched st) \<subseteq> set (l_fetched (complete resolve uri resp st))"
proof -
  have "set (l_fetched st)
          \<subseteq> set (l_fetched (traverse resolve uri d (resume uri d subs
                (st\<lparr>l_table := set_entry uri (Resolved d) (l_table st)\<rparr>))))" for d subs
    using visits_fetched_grow [of "resume uri d subs (st\<lparr>l_table := set_entry uri (Resolved d) (l_table st)\<rparr>)"
        resolve uri "refs_in d"]
    by (simp add: traverse_def)
  then show ?thesis
    by (auto simp: complete_def fail_def split: option.splits entry.splits response.splits)
qed

lemma deliver_fetched_grows: "set (l_fetched st) \<subseteq> set (l_fetched (deliver resolve evs st))"
  unfolding deliver_def
proof (induction evs arbitrary: st)
  case Nil
  show ?case by simp
next
  case (Cons ev evs)
  obtain uri resp where ev: "ev = (uri, resp)" by (cases ev)
  from complete_fetched_grows [of st resolve uri resp] Cons [of "complete resolve uri resp st"] ev
  show ?case by auto
qed

lemma count_list_distinct: "distinct xs \<Longrightarrow> x \<in> set xs \<Longrightarrow> count_list xs x = 1"
  by (induction xs) (auto simp: count_list_0_iff)

lemma load_keeps_root:
  "(base, Resolved (root_node rootSchema)) \<in> set (l_table (load resolve rootSchema base))"
proof -
  let ?st = "\<lparr>l_root = root_node rootSchema,
        l_table = [(base, Resolved (root_node rootSchema))],
        l_fetched = [], l_status = Loading, l_resolved = [], l_errors = []\<rparr>"
  have "sound ?st" by (simp add: sound_def pending_def is_pending_def)
  from resolved_kept_visits [OF this, of base "root_node rootSchema" resolve base "refs_in (root_node rootSchema)"]
  show ?thesis by (simp add: load_def traverse_def)
qed

lemma needed_is_fetched:
  assumes nf: "l_status (load resolve rootSchema base) \<noteq> Failed"
    and r: "r \<in> set (refs_in (root_node rootSchema))"
    and ext: "fst (resolve base r) \<noteq> base"
  shows "fst (resolve base r) \<in> set (l_fetched (load resolve rootSchema base))"
proof -
  let ?st = "load resolve rootSchema base"
  from steady_load [of resolve rootSchema base] nf
  have "covered resolve (l_table ?st) {}" by (simp add: steady_def)
  with load_keeps_root [of base rootSchema resolve] r
  have "ok_ref resolve (l_table ?st) base r" by (auto simp: covered_def)
  then have "map_of (l_table ?st) (fst (resolve base r)) \<noteq> None"
    by (auto simp: ok_ref_def split: prod.splits option.splits)
  then have "fst (resolve base r) \<in> fst ` set (l_table ?st)"
    by (simp add: map_of_None_iff)
  with rooted_load [of base resolve rootSchema] ext show ?thesis
    by (auto simp: rooted_def)
qed

lemma count_list_le_one: "distinct xs \<Longrightarrow> count_list xs u \<le> 1"
  by (induction xs) (auto simp: count_list_0_iff)

lemma referenced_is_fetched:
  assumes st: "steady resolve st" and ro: "rooted base st" and nf: "l_status st \<noteq> Failed"
    and d: "(b, Resolved d) \<in> set (l_table st)" and r: "r \<in> set (refs_in d)"
    and ext: "fst (resolve b r) \<noteq> base"
  shows "fst (resolve b r) \<in> set (l_fetched st)"
proof -
  from st nf have "covered resolve (l_table st) {}" by (simp add: steady_def)
  with d r have "ok_ref resolve (l_table st) b r" by (auto simp: covered_def)
  then have "map_of (l_table st) (fst (resolve b r)) \<noteq> None"
    by (auto simp: ok_ref_def split: prod.splits option.splits)
  then have "fst (resolve b r) \<in> fst ` set (l_table st)"
    by (simp add: map_of_None_iff)
  with ro ext show ?thesis by (auto simp: rooted_def)
qed

lemma visit_fetches:
  assumes "map_of (l_table st) (fst (resolve base r)) = None" and "l_status st = Loading"
  shows "l_fetched (visit resolve base st r) = l_fetched st @ [fst (resolve base r)]"
  using assms by (auto simp: visit_def split: prod.splits)

subsection \<open>A root that refers to one document from three places\<close>

lemmas loader_defs = load_def traverse_def visit_def settle_def pending_def is_pending_def
  root_node_def example_resolve_def fail_def deliver_def complete_def resume_def resume_one_def
  set_entry_def json_pointer_def

lemma shared_load:
  "load example_resolve shared_schema ''http://x/root.json''
     = \<lparr>l_root = shared_schema,
        l_table = [(''http://x/root.json'', Resolved shared_schema),
                   (''http://x/defs.json'', Pending [''/defs/name'', ''/defs/name'', ''/defs/age''])],
        l_fetched = [''http://x/defs.json''],
        l_status = Loading,
        l_resolved = [],
        l_errors = []\<rparr>"
  by (simp add: loader_defs shared_schema_def)

lemma shared_delivered:
  "deliver example_resolve [(''http://x/defs.json'', Fetched defs_document)]
      (load example_resolve shared_schema ''http://x/root.json'')
     = \<lparr>l_root = shared_schema,
        l_table = [(''http://x/root.json'', Resolved shared_schema),
                   (''http://x/defs.json'', Resolved defs_document)],
        l_fetched = [''http://x/defs.json''],
        l_status = Finished,
        l_resolved = [shared_schema],
        l_errors = []\<rparr>"
  by (simp add: shared_load) (simp add: loader_defs defs_document_def shared_schema_def)

lemma shared_facts:
  "l_status (deliver example_resolve [(''http://x/defs.json'', Fetched defs_document)]
      (load example_resolve shared_schema ''http://x/root.json'')) \<noteq> Failed"
  "(''http://x/root.json'', Resolved shared_schema)
     \<in> set (l_table (deliver example_resolve [(''http://x/defs.json'', Fetched defs_document)]
          (load example_resolve shared_schema ''http://x/root.json'')))"
  "''http://x/defs.json#/defs/name'' \<in> set (refs_in shared_schema)"
  "fst (example_resolve ''http://x/root.json'' ''http://x/defs.json#/defs/name'') \<noteq> ''http://x/root.json''"
  "map_of (l_table (load example_resolve shared_schema ''http://x/root.json''))
      (fst (example_resolve ''http://x/root.json'' ''http://x/defs.json#/defs/age'')) \<noteq> None"
  "map_of (l_table started)
      (fst (example_resolve ''http://x/root.json'' ''http://x/defs.json#/defs/name'')) = None"
  "l_status started = Loading"
proof -
  show "l_status (deliver example_resolve [(''http://x/defs.json'', Fetched defs_document)]
      (load example_resolve shared_schema ''http://x/root.json'')) \<noteq> Failed"
    by (simp add: shared_delivered)
  show "(''http://x/root.json'', Resolved shared_schema)
     \<in> set (l_table (deliver example_resolve [(''http://x/defs.json'', Fetched defs_document)]
          (load example_resolve shared_schema ''http://x/root.json'')))"
    by (simp add: shared_delivered)
  show "''http://x/defs.json#/defs/name'' \<in> set (refs_in shared_schema)"
    by (simp add: shared_schema_def)
  show "fst (example_resolve ''http://x/root.json'' ''http://x/defs.json#/defs/name'') \<noteq> ''http://x/root.json''"
    by (simp add: example_resolve_def)
  show "map_of (l_table (load example_resolve shared_schema ''http://x/root.json''))
      (fst (example_resolve ''http://x/root.json'' ''http://x/defs.json#/defs/age'')) \<noteq> None"
    by (simp add: shared_load example_resolve_def)
  show "map_of (l_table started)
      (fst (example_resolve ''http://x/root.json'' ''http://x/defs.json#/defs/name'')) = None"
    by (simp add: started_def example_resolve_def)
  show "l_status started = Loading"
    by (simp add: started_def)
qed
section \<open>Path construction, \<open>oneOf\<close>, and the results of \<open>validate\<close>\<close>

subsection \<open>Error paths\<close>





subsection \<open>\<open>oneOf\<close>\<close>




subsection \<open>What \<open>validate\<close> returns\<close>





section \<open>Fetches of one \<open>load\<close> call\<close>

text \<open>
  Claim C4.  At every moment of one \<open>load\<close> call, whatever completions have been
  processed, the fetch capability has been invoked at most once with any URI, and never
  with the URI of the root document.  Unless the load has failed, it has been invoked
  exactly once with the URI of every other document that a reference of a document of
  the table points into, from however many places.  A reference to a document that has
  an entry in the table, pending or resolved, issues no fetch; a reference to a document
  the table lacks, met while the load is running, issues one fetch, of that document.
\<close>

theorem single_flight:
  "count_list (l_fetched (deliver resolve evs (load resolve rootSchema base))) u \<le> 1 \<and>
   count_list (l_fetched (deliver resolve evs (load resolve rootSchema base))) base = 0 \<and>
   (l_status (deliver resolve evs (load resolve rootSchema base)) \<noteq> Failed \<and>
    (b, Resolved d) \<in> set (l_table (deliver resolve evs (load resolve rootSchema base))) \<and>
    r \<in> set (refs_in d) \<and> fst (resolve b r) \<noteq> base \<longrightarrow>
      count_list (l_fetched (deliver resolve evs (load resolve rootSchema base))) (fst (resolve b r)) = 1) \<and>
   (map_of (l_table st) (fst (resolve b' r')) \<noteq> None \<longrightarrow>
      l_fetched (visit resolve b' st r') = l_fetched st) \<and>
   (map_of (l_table st) (fst (resolve b' r')) = None \<and> l_status st = Loading \<longrightarrow>
      l_fetched (visit resolve b' st r') = l_fetched st @ [fst (resolve b' r')])"
proof -
  let ?st = "deliver resolve evs (load resolve rootSchema base)"
  have sound: "sound ?st" by (rule sound_deliver [OF sound_load])
  then have dist: "distinct (l_fetched ?st)" by (simp add: sound_def)
  have steady: "steady resolve ?st" by (rule steady_deliver [OF steady_load])
  have rooted: "rooted base ?st" by (rule rooted_deliver [OF rooted_load])
  have 1: "count_list (l_fetched ?st) u \<le> 1" by (rule count_list_le_one [OF dist])
  from rooted have 2: "count_list (l_fetched ?st) base = 0"
    by (simp add: rooted_def count_list_0_iff)
  have 3: "count_list (l_fetched ?st) (fst (resolve b r)) = 1"
    if "l_status ?st \<noteq> Failed \<and> (b, Resolved d) \<in> set (l_table ?st) \<and>
        r \<in> set (refs_in d) \<and> fst (resolve b r) \<noteq> base"
  proof -
    from that referenced_is_fetched [OF steady rooted, of b d r]
    have "fst (resolve b r) \<in> set (l_fetched ?st)" by blast
    then show ?thesis by (rule count_list_distinct [OF dist])
  qed
  have 4: "l_fetched (visit resolve b' st r') = l_fetched st"
    if "map_of (l_table st) (fst (resolve b' r')) \<noteq> None"
    using that by (rule visit_reuses)
  have 5: "l_fetched (visit resolve b' st r') = l_fetched st @ [fst (resolve b' r')]"
    if "map_of (l_table st) (fst (resolve b' r')) = None \<and> l_status st = Loading"
    using that visit_fetches [of st resolve b' r'] by blast
  from 1 2 3 4 5 show ?thesis by blast
qed

theorem single_flight_witness:
  "refs_in shared_schema
     = [''http://x/defs.json#/defs/name'', ''http://x/defs.json#/defs/name'',
        ''http://x/defs.json#/defs/age''] \<and>
   l_fetched (load example_resolve shared_schema ''http://x/root.json'') = [''http://x/defs.json''] \<and>
   l_status (deliver example_resolve [(''http://x/defs.json'', Fetched defs_document)]
      (load example_resolve shared_schema ''http://x/root.json'')) \<noteq> Failed \<and>
   (''http://x/root.json'', Resolved shared_schema)
     \<in> set (l_table (deliver example_resolve [(''http://x/defs.json'', Fetched defs_document)]
          (load example_resolve shared_schema ''http://x/root.json''))) \<and>
   ''http://x/defs.json#/defs/name'' \<in> set (refs_in shared_schema) \<and>
   fst (example_resolve ''http://x/root.json'' ''http://x/defs.json#/defs/name'') \<noteq> ''http://x/root.json'' \<and>
   count_list (l_fetched (deliver example_resolve [(''http://x/defs.json'', Fetched defs_document)]
        (load example_resolve shared_schema ''http://x/root.json'')))
      (fst (example_resolve ''http://x/root.json'' ''http://x/defs.json#/defs/name'')) = 1 \<and>
   map_of (l_table (load example_resolve shared_schema ''http://x/root.json''))
      (fst (example_resolve ''http://x/root.json'' ''http://x/defs.json#/defs/age'')) \<noteq> None \<and>
   l_fetched (visit example_resolve ''http://x/root.json''
        (load example_resolve shared_schema ''http://x/root.json'') ''http://x/defs.json#/defs/age'')
     = l_fetched (load example_resolve shared_schema ''http://x/root.json'') \<and>
   map_of (l_table started)
      (fst (example_resolve ''http://x/root.json'' ''http://x/defs.json#/defs/name'')) = None \<and>
   l_status started = Loading \<and>
   l_fetched (visit example_resolve ''http://x/root.json'' started ''http://x/defs.json#/defs/name'')
     = l_fetched started @ [fst (example_resolve ''http://x/root.json'' ''http://x/defs.json#/defs/name'')]"
proof -
  note T = single_flight [where resolve = example_resolve
      and evs = "[(''http://x/defs.json'', Fetched defs_document)]"
      and rootSchema = shared_schema and base = "''http://x/root.json''"
      and b = "''http://x/root.json''" and d = shared_schema
      and r = "''http://x/defs.json#/defs/name''"
      and st = "load example_resolve shared_schema ''http://x/root.json''"
      and b' = "''http://x/root.json''" and r' = "''http://x/defs.json#/defs/age''"]
  note S = single_flight [where resolve = example_resolve
      and st = started and b' = "''http://x/root.json''" and r' = "''http://x/defs.json#/defs/name''"]
  note T3 = T [THEN conjunct2, THEN conjunct2]
  note f = shared_facts
  have refs: "refs_in shared_schema
     = [''http://x/defs.json#/defs/name'', ''http://x/defs.json#/defs/name'',
        ''http://x/defs.json#/defs/age'']"
    by (simp add: shared_schema_def)
  have one: "l_fetched (load example_resolve shared_schema ''http://x/root.json'') = [''http://x/defs.json'']"
    by (simp add: shared_load)
  show ?thesis
    apply (intro conjI)
    apply (rule refs)
    apply (rule one)
    apply (rule f(1))
    apply (rule f(2))
    apply (rule f(3))
    apply (rule f(4))
    apply (rule T3 [THEN conjunct1, THEN mp, OF conjI [OF f(1) conjI [OF f(2) conjI [OF f(3) f(4)]]]])
    apply (rule f(5))
    apply (rule T3 [THEN conjunct2, THEN conjunct1, THEN mp, OF f(5)])
    apply (rule f(6))
    apply (rule f(7))
    apply (rule S [THEN conjunct2, THEN conjunct2, THEN conjunct2, THEN conjunct2, THEN mp,
          OF conjI [OF f(6) f(7)]])
    done
qed

end
